theory Spec2Isabelle
  imports Main "HOL-Library.Word"
begin

section \<open>Address registry (internal/address/address_watcher.go)\<close>

text \<open>
  The struct \<^verbatim>\<open>inMemoryAddressWatcher\<close> holds a Go \<^verbatim>\<open>map[string]bool\<close> and a
  read/write mutex under which every method runs, so each method is one atomic state
  transformer. Reading a key that is absent from a Go map gives the zero value
  \<^verbatim>\<open>false\<close>; Go strings are byte sequences compared byte by byte.
\<close>

record inMemoryAddressWatcher =
  watchedAddresses :: "string \<rightharpoonup> bool"

definition NewInMemoryAddressWatcher :: inMemoryAddressWatcher where
  "NewInMemoryAddressWatcher = \<lparr>watchedAddresses = Map.empty\<rparr>"

definition IsWatched :: "inMemoryAddressWatcher \<Rightarrow> string \<Rightarrow> bool" where
  "IsWatched w address =
     (case watchedAddresses w address of None \<Rightarrow> False | Some b \<Rightarrow> b)"

fun AddAddresses :: "inMemoryAddressWatcher \<Rightarrow> string list \<Rightarrow> inMemoryAddressWatcher" where
  "AddAddresses w [] = w"
| "AddAddresses w (address # addresses) =
     AddAddresses (w\<lparr>watchedAddresses := (watchedAddresses w)(address \<mapsto> True)\<rparr>) addresses"

fun RemoveAddresses :: "inMemoryAddressWatcher \<Rightarrow> string list \<Rightarrow> inMemoryAddressWatcher" where
  "RemoveAddresses w [] = w"
| "RemoveAddresses w (address # addresses) =
     RemoveAddresses (w\<lparr>watchedAddresses := (watchedAddresses w)(address := None)\<rparr>) addresses"

text \<open>
  The control surface of the registry: any sequence of \<^verbatim>\<open>AddAddresses\<close> and
  \<^verbatim>\<open>RemoveAddresses\<close> calls, applied in order.
\<close>

datatype watcher_op = Add "string list" | Remove "string list"

fun apply_op :: "inMemoryAddressWatcher \<Rightarrow> watcher_op \<Rightarrow> inMemoryAddressWatcher" where
  "apply_op w (Add addresses) = AddAddresses w addresses"
| "apply_op w (Remove addresses) = RemoveAddresses w addresses"

fun apply_ops :: "inMemoryAddressWatcher \<Rightarrow> watcher_op list \<Rightarrow> inMemoryAddressWatcher" where
  "apply_ops w [] = w"
| "apply_ops w (x # xs) = apply_ops (apply_op w x) xs"

fun adds :: "watcher_op \<Rightarrow> string list" where
  "adds (Add addresses) = addresses"
| "adds (Remove addresses) = []"

section \<open>Data model (internal/blockchain/blockchain.go, package pubsub)\<close>

text \<open>
  A \<^verbatim>\<open>*big.Int\<close> is a pointer to an unbounded integer: \<open>int option\<close>, with \<open>None\<close> for
  the nil pointer. Field names carry a prefix because the three Go structs share them.
\<close>

record Transaction =
  tx_Source :: string
  tx_Destination :: string
  tx_Amount :: "int option"
  tx_Fees :: "int option"
  tx_Hash :: string
  tx_BlockNumber :: "int option"

record Block =
  blk_Number :: "int option"
  blk_Hash :: string
  blk_Timestamp :: "64 word"
  blk_Difficulty :: "int option"
  blk_Transactions :: "Transaction list"

text \<open>\<^verbatim>\<open>pubsub.Transaction\<close>, the published event: it has no block number field.\<close>

record pubsub_Transaction =
  ev_Source :: string
  ev_Destination :: string
  ev_Amount :: "int option"
  ev_Fees :: "int option"
  ev_Hash :: string

text \<open>
  Modelled from the spec: the constant \<^verbatim>\<open>pubsub.TopicTransaction\<close> is used by
  \<^verbatim>\<open>processBlock\<close> but its declaration is not among the source files; the spec gives
  the fixed topic as \<^verbatim>\<open>"transaction"\<close>.
\<close>

definition TopicTransaction :: string where
  "TopicTransaction = ''transaction''"

section \<open>Collaborators and the calls made on them\<close>

text \<open>
  A Go \<^verbatim>\<open>error\<close> value is \<open>error option\<close>, \<open>None\<close> for nil. The collaborators
  (\<^verbatim>\<open>dlock.DistributedLock\<close>, \<^verbatim>\<open>address.Watcher\<close>, \<^verbatim>\<open>pubsub.Publisher\<close>) are
  interfaces: each method is an arbitrary function of the state \<open>'w\<close> of the world outside
  the monitor, which it may change. \<^verbatim>\<open>json.Marshal\<close> is a library function that
  returns bytes or an error. Every call on a collaborator and on the logger is recorded,
  in order, as a \<open>call\<close>.
\<close>

datatype error = errors_New string

datatype level = Debug | Info | Warn | Error

datatype call =
    Lock_call string
  | Unlock_call string
  | IsWatched_call string
  | Publish_call string string
  | Log_call level string

record 'w deps =
  dlock_Lock :: "string \<Rightarrow> 'w \<Rightarrow> error option \<times> 'w"
  dlock_Unlock :: "string \<Rightarrow> 'w \<Rightarrow> (bool \<times> error option) \<times> 'w"
  addressWatcher_IsWatched :: "string \<Rightarrow> 'w \<Rightarrow> bool \<times> 'w"
  publisher_Publish :: "string \<Rightarrow> string \<Rightarrow> 'w \<Rightarrow> error option \<times> 'w"
  json_Marshal :: "pubsub_Transaction \<Rightarrow> error + string"

section \<open>Block processing (internal/txmonitor/txmonitor\_service.go)\<close>

text \<open>
  Every function returns its result, the world after it, and the calls it made. The
  context argument is the monitor's own context in every call and is part of the world.
\<close>

definition isTransactionRelevant ::
  "'w deps \<Rightarrow> Transaction \<Rightarrow> 'w \<Rightarrow> bool \<times> 'w \<times> call list" where
  "isTransactionRelevant d tx w =
     (let (src, w1) = addressWatcher_IsWatched d (tx_Source tx) w in
      if src then (True, w1, [IsWatched_call (tx_Source tx)])
      else
        (let (dst, w2) = addressWatcher_IsWatched d (tx_Destination tx) w1 in
         (dst, w2, [IsWatched_call (tx_Source tx), IsWatched_call (tx_Destination tx)])))"

definition event_of :: "Transaction \<Rightarrow> pubsub_Transaction" where
  "event_of tx =
     \<lparr>ev_Source = tx_Source tx, ev_Destination = tx_Destination tx,
      ev_Amount = tx_Amount tx, ev_Fees = tx_Fees tx, ev_Hash = tx_Hash tx\<rparr>"

text \<open>
  The \<^verbatim>\<open>for _, tx := range block.Transactions\<close> loop of \<^verbatim>\<open>processBlock\<close>. The counter
  \<^verbatim>\<open>relevantTxCount\<close> is incremented and never read, so it is left out.
\<close>

fun processTransactions :: "'w deps \<Rightarrow> Transaction list \<Rightarrow> 'w \<Rightarrow> 'w \<times> call list" where
  "processTransactions d [] w = (w, [])"
| "processTransactions d (tx # txs) w =
     (let (relevant, w1, c1) = isTransactionRelevant d tx w in
      if \<not> relevant then
        (let (w', cs) = processTransactions d txs w1 in (w', c1 @ cs))
      else
        (case json_Marshal d (event_of tx) of
           Inl err \<Rightarrow>
             (let (w', cs) = processTransactions d txs w1 in
              (w', c1 @ [Log_call Error ''Failed to marshal transaction event''] @ cs))
         | Inr msg \<Rightarrow>
             (let (perr, w2) = publisher_Publish d TopicTransaction msg w1;
                  c2 = [Publish_call TopicTransaction msg] @
                       (if perr \<noteq> None
                        then [Log_call Error ''Failed to publish transaction event'']
                        else []) @
                       [Log_call Debug ''Relevant tx''];
                  (w', cs) = processTransactions d txs w2
              in (w', c1 @ c2 @ cs))))"

definition lockKey :: "Block \<Rightarrow> string" where
  "lockKey block = ''block_lock_'' @ blk_Hash block"

definition processBlock :: "'w deps \<Rightarrow> Block \<Rightarrow> 'w \<Rightarrow> error option \<times> 'w \<times> call list" where
  "processBlock d block w =
     (let c0 = [Log_call Debug ''Processing block transactions''];
          (lerr, w1) = dlock_Lock d (lockKey block) w
      in if lerr \<noteq> None then
           (None, w1, c0 @ [Lock_call (lockKey block),
                            Log_call Warn ''Other instance is processing block''])
         else
           (let (w2, cs) = processTransactions d (blk_Transactions block) w1;
                (_, w3) = dlock_Unlock d (lockKey block) w2
            in (None, w3, c0 @ [Lock_call (lockKey block)] @ cs @ [Unlock_call (lockKey block)])))"

section \<open>Reading a sequence of calls\<close>


fun is_Lock :: "call \<Rightarrow> bool" where
  "is_Lock (Lock_call k) = True"
| "is_Lock c = False"

fun is_Unlock :: "call \<Rightarrow> bool" where
  "is_Unlock (Unlock_call k) = True"
| "is_Unlock c = False"

fun is_IsWatched :: "call \<Rightarrow> bool" where
  "is_IsWatched (IsWatched_call a) = True"
| "is_IsWatched c = False"

fun is_Publish :: "call \<Rightarrow> bool" where
  "is_Publish (Publish_call t m) = True"
| "is_Publish c = False"


text \<open>
  The relevance test in the words of the specification, on a fixed watched-address set:
  the source is watched or the destination is watched.
\<close>

definition spec_relevant :: "inMemoryAddressWatcher \<Rightarrow> Transaction \<Rightarrow> bool" where
  "spec_relevant ws tx = (IsWatched ws (tx_Source tx) \<or> IsWatched ws (tx_Destination tx))"

text \<open>The payloads that serializing the event of a transaction yields: one, or none on error.\<close>

definition payloads :: "'w deps \<Rightarrow> Transaction \<Rightarrow> string list" where
  "payloads d tx = (case json_Marshal d (event_of tx) of Inl err \<Rightarrow> [] | Inr msg \<Rightarrow> [msg])"

section \<open>Collaborators of the unit tests\<close>

text \<open>
  The tests of \<^verbatim>\<open>processBlock\<close> replace the collaborators by mocks with fixed answers.
  \<open>mock_deps\<close> does the same: the registry is a given \<open>inMemoryAddressWatcher\<close>, the lock
  answers by key, the world is the number of \<^verbatim>\<open>Publish\<close> calls made so far and the
  publisher answers by that number.
\<close>

definition mock_deps ::
  "inMemoryAddressWatcher \<Rightarrow> (string \<Rightarrow> error option) \<Rightarrow> (nat \<Rightarrow> error option) \<Rightarrow>
   (pubsub_Transaction \<Rightarrow> error + string) \<Rightarrow> nat deps" where
  "mock_deps ws lock_result publish_result marshal =
     \<lparr>dlock_Lock = (\<lambda>key n. (lock_result key, n)),
      dlock_Unlock = (\<lambda>key n. ((True, None), n)),
      addressWatcher_IsWatched = (\<lambda>address n. (IsWatched ws address, n)),
      publisher_Publish = (\<lambda>topic msg n. (publish_result n, Suc n)),
      json_Marshal = marshal\<rparr>"

text \<open>
  The block of \<^verbatim>\<open>TestTxMonitorService_ProcessBlock\<close>: one transaction from
  \<^verbatim>\<open>0x1234\<close> to \<^verbatim>\<open>0x5678\<close>; the fields the test does not set have their zero value.
\<close>

definition scenario_tx :: Transaction where
  "scenario_tx =
     \<lparr>tx_Source = ''0x1234'', tx_Destination = ''0x5678'', tx_Amount = Some 100,
      tx_Fees = Some 10, tx_Hash = ''tx1hash'', tx_BlockNumber = None\<rparr>"

definition scenario_block :: Block where
  "scenario_block =
     \<lparr>blk_Number = Some 100, blk_Hash = ''block123'', blk_Timestamp = 0,
      blk_Difficulty = None, blk_Transactions = [scenario_tx]\<rparr>"

text \<open>
  The serializer of the concrete scenarios: the bytes that \<^verbatim>\<open>json.Marshal\<close> of
  \<^verbatim>\<open>encoding/json\<close> (Go 1.25, the release the Dockerfile builds with) writes for a
  \<^verbatim>\<open>pubsub.Transaction\<close>. The struct has no field tags, so the keys are the Go field names,
  in declaration order; a \<^verbatim>\<open>*big.Int\<close> is written as a decimal number and a nil pointer
  as \<^verbatim>\<open>null\<close>. In a string the library escapes the quote, the backslash, the control
  characters and \<^verbatim>\<open><\<close>, \<^verbatim>\<open>>\<close>, \<^verbatim>\<open>&\<close>; it writes \<^verbatim>\<open>\ufffd\<close> for every byte that does not
  start a valid UTF-8 sequence, and escapes the code points U+2028 and U+2029. On this
  struct it returns no error.
\<close>

function decimal_nat :: "nat \<Rightarrow> string" where
  "decimal_nat n =
     (if n < 10 then [''0123456789'' ! n]
      else decimal_nat (n div 10) @ [''0123456789'' ! (n mod 10)])"
  by pat_completeness auto
termination
  by (relation "measure id") auto

definition decimal_bigInt :: "int option \<Rightarrow> string" where
  "decimal_bigInt x =
     (case x of None \<Rightarrow> ''null''
      | Some i \<Rightarrow> if i < 0 then ''-'' @ decimal_nat (nat (- i)) else decimal_nat (nat i))"

definition hex_digit :: "nat \<Rightarrow> char" where
  "hex_digit n = ''0123456789abcdef'' ! n"

text \<open>A byte below 0x80: copied, or escaped (\<open>CHR 0x5C\<close> is the backslash).\<close>

definition escape_ascii :: "char \<Rightarrow> string" where
  \<open>escape_ascii b =
     (if b = CHR ''"'' then [CHR 0x5C, CHR ''"'']
      else if b = CHR 0x5C then [CHR 0x5C, CHR 0x5C]
      else if b = CHR 0x08 then [CHR 0x5C, CHR ''b'']
      else if b = CHR 0x0C then [CHR 0x5C, CHR ''f'']
      else if b = CHR 0x0A then [CHR 0x5C, CHR ''n'']
      else if b = CHR 0x0D then [CHR 0x5C, CHR ''r'']
      else if b = CHR 0x09 then [CHR 0x5C, CHR ''t'']
      else if of_char b < (32 :: nat) \<or> b = CHR ''<'' \<or> b = CHR ''>'' \<or> b = CHR ''&''
      then [CHR 0x5C, CHR ''u'', CHR ''0'', CHR ''0'',
            hex_digit (of_char b div 16), hex_digit (of_char b mod 16)]
      else [b])\<close>

text \<open>
  \<^verbatim>\<open>utf8.DecodeRuneInString\<close>, as far as the serializer needs it: the number of bytes of
  the valid UTF-8 sequence of two to four bytes at the head of \<open>s\<close>, or 0 when there is
  none (a stray or missing continuation byte, an overlong form, a surrogate, a value
  above U+10FFFF).
\<close>

definition continuation :: "nat \<Rightarrow> nat \<Rightarrow> string \<Rightarrow> nat \<Rightarrow> bool" where
  "continuation lo hi s i =
     (i < length s \<and> lo \<le> (of_char (s ! i) :: nat) \<and> (of_char (s ! i) :: nat) \<le> hi)"

definition rune_size :: "string \<Rightarrow> nat" where
  "rune_size s =
     (let b = (of_char (s ! 0) :: nat) in
      if 194 \<le> b \<and> b \<le> 223 \<and> continuation 128 191 s 1 then 2
      else if b = 224 \<and> continuation 160 191 s 1 \<and> continuation 128 191 s 2 then 3
      else if ((225 \<le> b \<and> b \<le> 236) \<or> b = 238 \<or> b = 239) \<and>
              continuation 128 191 s 1 \<and> continuation 128 191 s 2 then 3
      else if b = 237 \<and> continuation 128 159 s 1 \<and> continuation 128 191 s 2 then 3
      else if b = 240 \<and> continuation 144 191 s 1 \<and> continuation 128 191 s 2 \<and>
              continuation 128 191 s 3 then 4
      else if 241 \<le> b \<and> b \<le> 243 \<and> continuation 128 191 s 1 \<and>
              continuation 128 191 s 2 \<and> continuation 128 191 s 3 then 4
      else if b = 244 \<and> continuation 128 143 s 1 \<and> continuation 128 191 s 2 \<and>
              continuation 128 191 s 3 then 4
      else 0)"

function escape_string :: "string \<Rightarrow> string" where
  "escape_string s =
     (if s = [] then []
      else if (of_char (hd s) :: nat) < 128 then escape_ascii (hd s) @ escape_string (tl s)
      else if rune_size s = 0 then (CHR 0x5C # ''ufffd'') @ escape_string (tl s)
      else if take 3 s = [CHR 0xE2, CHR 0x80, CHR 0xA8]
      then (CHR 0x5C # ''u2028'') @ escape_string (drop 3 s)
      else if take 3 s = [CHR 0xE2, CHR 0x80, CHR 0xA9]
      then (CHR 0x5C # ''u2029'') @ escape_string (drop 3 s)
      else take (rune_size s) s @ escape_string (drop (rune_size s) s))"
  by pat_completeness auto
termination
  by (relation "measure length") (auto simp: rune_size_def Let_def split: if_splits)

definition json_string :: "string \<Rightarrow> string" where
  \<open>json_string s = ''"'' @ escape_string s @ ''"''\<close>

definition encode_json :: "pubsub_Transaction \<Rightarrow> string" where
  \<open>encode_json ev =
     ''{"Source":'' @ json_string (ev_Source ev) @
     '',"Destination":'' @ json_string (ev_Destination ev) @
     '',"Amount":'' @ decimal_bigInt (ev_Amount ev) @
     '',"Fees":'' @ decimal_bigInt (ev_Fees ev) @
     '',"Hash":'' @ json_string (ev_Hash ev) @ ''}''\<close>

definition marshal_json :: "pubsub_Transaction \<Rightarrow> error + string" where
  "marshal_json ev = Inr (encode_json ev)"

text \<open>
  A second set of mocks, whose world also holds the keys that are locked: \<^verbatim>\<open>Lock\<close> fails on
  a key that is held and takes it otherwise, \<^verbatim>\<open>Unlock\<close> releases it. The world is the held
  keys and the number of \<^verbatim>\<open>Publish\<close> calls made so far.
\<close>

definition locking_mock_deps ::
  "inMemoryAddressWatcher \<Rightarrow> (nat \<Rightarrow> error option) \<Rightarrow>
   (pubsub_Transaction \<Rightarrow> error + string) \<Rightarrow> (string list \<times> nat) deps" where
  "locking_mock_deps ws publish_result marshal =
     \<lparr>dlock_Lock = (\<lambda>key (held, n).
        if key \<in> set held then (Some (errors_New ''lock already taken''), (held, n))
        else (None, (key # held, n))),
      dlock_Unlock = (\<lambda>key (held, n). ((key \<in> set held, None), (removeAll key held, n))),
      addressWatcher_IsWatched = (\<lambda>address w. (IsWatched ws address, w)),
      publisher_Publish = (\<lambda>topic msg (held, n). (publish_result n, (held, Suc n))),
      json_Marshal = marshal\<rparr>"

text \<open>Transactions and blocks of the further scenarios, built as the tests build them.\<close>

definition mk_tx :: "string \<Rightarrow> string \<Rightarrow> int \<Rightarrow> int \<Rightarrow> string \<Rightarrow> Transaction" where
  "mk_tx src dst amount fees h =
     \<lparr>tx_Source = src, tx_Destination = dst, tx_Amount = Some amount,
      tx_Fees = Some fees, tx_Hash = h, tx_BlockNumber = None\<rparr>"

definition mk_block :: "string \<Rightarrow> Transaction list \<Rightarrow> Block" where
  "mk_block h txs =
     \<lparr>blk_Number = Some 100, blk_Hash = h, blk_Timestamp = 0,
      blk_Difficulty = None, blk_Transactions = txs\<rparr>"

section \<open>Lifecycle: Start, Stop and the ingestion goroutine\<close>

text \<open>
  \<^verbatim>\<open>Start\<close> and \<^verbatim>\<open>Stop\<close> are called from concurrent request handlers while the goroutine
  launched by \<^verbatim>\<open>Start\<close> runs, so the lifecycle is a transition system: a state of the
  service and of its threads, and one event for each step of the source that reads or
  writes shared state. Steps of different threads interleave in any order.

  A context is the background context, a context owned by a caller (a request), or a
  context derived by \<^verbatim>\<open>context.WithTimeout\<close> from a parent; the derived ones are numbered
  in the order of their creation, and the number also stands for the cancel function
  returned with the context. Time is a clock that counts nanoseconds, as \<^verbatim>\<open>time.Duration\<close>
  does, from the construction of the service.
\<close>

datatype "context" = Background | Request nat | WithTimeout "context" nat

text \<open>
  Where the goroutine of \<^verbatim>\<open>Start\<close> stands: at the \<^verbatim>\<open>select\<close>; with a block received and
  \<^verbatim>\<open>wg.Add(1)\<close> not yet done; inside \<^verbatim>\<open>processBlock\<close> (between \<^verbatim>\<open>wg.Add(1)\<close> and
  \<^verbatim>\<open>wg.Done()\<close>); or returned.
\<close>

datatype loop_pc = Selecting | Received | Processing | Exited

text \<open>
  Where a call of \<^verbatim>\<open>Start\<close> or \<^verbatim>\<open>Stop\<close> stands. A \<^verbatim>\<open>Start\<close> call that found the monitor
  not running holds the context and cancel function it created.
\<close>

datatype call_pc =
    Start_locking "context" nat
  | Start_subscribing "context"
  | Start_spawning "context"
  | Stop_locked
  | Stop_idle
  | Stop_waiting
  | Stop_drained
  | Returned

text \<open>
  The fields \<open>isRunning\<close>, \<open>cancelFunc\<close>, \<open>wg\<close> (the counter of the wait group) and \<open>mu\<close>
  (the caller holding the write lock) are those of the struct \<^verbatim>\<open>txMonitorService\<close>. The
  others are the state of the run-time system around it: the clock, the deadline of each
  context that \<^verbatim>\<open>context.WithTimeout\<close> has made (in the order of creation), the cancel
  functions that have been called, the caller contexts that are done, the contexts passed
  to \<^verbatim>\<open>SubscribeToBlocks\<close>, the goroutines launched (each with the context it selects on)
  and the calls made (a call is named by its position in \<open>callers\<close>, a goroutine by its
  position in \<open>goroutines\<close>).
\<close>

record system =
  isRunning :: bool
  cancelFunc :: "nat option"
  wg :: nat
  mu :: "nat option"
  now :: nat
  deadlines :: "nat list"
  cancelCalled :: "nat set"
  requestsDone :: "nat set"
  subscriptions :: "context list"
  goroutines :: "(context \<times> loop_pc) list"
  callers :: "call_pc list"

definition NewTxMonitorService :: system where
  "NewTxMonitorService =
     \<lparr>isRunning = False, cancelFunc = None, wg = 0, mu = None, now = 0, deadlines = [],
      cancelCalled = {}, requestsDone = {}, subscriptions = [],
      goroutines = [], callers = []\<rparr>"

text \<open>The number of contexts made so far, which is the number of the next one.\<close>

definition contexts :: "system \<Rightarrow> nat" where
  "contexts s = length (deadlines s)"

text \<open>\<^verbatim>\<open>24*time.Hour\<close>, in nanoseconds.\<close>

definition monitorTimeout :: nat where
  "monitorTimeout = 24 * 3600 * 1000000000"

text \<open>
  \<^verbatim>\<open>ctx.Done()\<close> is closed: for a derived context when its cancel function was called,
  its deadline has passed or its parent is done.
\<close>

fun ctxDone :: "system \<Rightarrow> context \<Rightarrow> bool" where
  "ctxDone s Background = False"
| "ctxDone s (Request n) = (n \<in> requestsDone s)"
| "ctxDone s (WithTimeout parent k) =
     (k \<in> cancelCalled s \<or> (k < length (deadlines s) \<and> deadlines s ! k \<le> now s) \<or>
      ctxDone s parent)"

text \<open>
  The events, with the lines of txmonitor\_service.go they stand for.
  \<^item> \<open>StartCall ctx\<close>: a new call \<^verbatim>\<open>Start(ctx)\<close> reads \<open>isRunning\<close> without the lock (line 55)
    and returns nil if it is set; otherwise it makes the monitor context from the
    background context, with its deadline 24 hours from now (line 61).
  \<^item> \<open>StartSet t\<close>: lines 62 to 65, under the lock. \<open>StartSubscribe t\<close>: line 68.
    \<open>StartGo t\<close>: the \<^verbatim>\<open>go\<close> statement of line 75 and the return of line 117.
  \<^item> \<open>StopCall\<close>: a new call \<^verbatim>\<open>Stop\<close> takes the lock (line 184). \<open>StopIdle t\<close>: line 187.
    \<open>StopCancel t\<close>: lines 189 to 191. \<open>StopWait t\<close>: \<^verbatim>\<open>wg.Wait()\<close> of line 193 returns, which
    it does when the counter is zero. \<open>StopReturn t\<close>: line 195 and the deferred unlock.
  \<^item> \<open>LoopDone g\<close>, \<open>LoopErr g\<close>, \<open>LoopClosed g\<close>: the three ways out of the \<^verbatim>\<open>select\<close> loop
    (lines 83, 86 and 93); the feed decides when an error arrives or the channel closes.
    \<open>LoopBlock g\<close>: a block is received (line 92). \<open>LoopAdd g\<close>: \<^verbatim>\<open>wg.Add(1)\<close> (line 105).
    \<open>LoopProcessed g\<close>: \<^verbatim>\<open>processBlock\<close> has returned and \<^verbatim>\<open>wg.Done()\<close> runs (line 112); a
    counter that would become negative is a panic, here no step.
  \<^item> \<open>Tick n\<close>: \<open>n\<close> nanoseconds pass. \<open>RequestDone n\<close>: the caller's context \<open>n\<close> is
    cancelled or expires.
  An event that is not enabled gives \<open>None\<close>.
\<close>

datatype event =
    StartCall "context"
  | StartSet nat
  | StartSubscribe nat
  | StartGo nat
  | StopCall
  | StopIdle nat
  | StopCancel nat
  | StopWait nat
  | StopReturn nat
  | LoopDone nat
  | LoopErr nat
  | LoopClosed nat
  | LoopBlock nat
  | LoopAdd nat
  | LoopProcessed nat
  | Tick nat
  | RequestDone nat

definition at_call :: "system \<Rightarrow> nat \<Rightarrow> call_pc \<Rightarrow> bool" where
  "at_call s t pc = (t < length (callers s) \<and> callers s ! t = pc)"

definition at_loop :: "system \<Rightarrow> nat \<Rightarrow> loop_pc \<Rightarrow> bool" where
  "at_loop s g pc = (g < length (goroutines s) \<and> snd (goroutines s ! g) = pc)"

definition set_loop :: "system \<Rightarrow> nat \<Rightarrow> loop_pc \<Rightarrow> (context \<times> loop_pc) list" where
  "set_loop s g pc = (goroutines s)[g := (fst (goroutines s ! g), pc)]"

fun step :: "event \<Rightarrow> system \<Rightarrow> system option" where
  "step (StartCall ctx) s =
     (if isRunning s then Some (s\<lparr>callers := callers s @ [Returned]\<rparr>)
      else Some (s\<lparr>deadlines := deadlines s @ [now s + monitorTimeout],
                   callers := callers s @
                     [Start_locking (WithTimeout Background (contexts s)) (contexts s)]\<rparr>))"
| "step (StartSet t) s =
     (if t < length (callers s) \<and> mu s = None then
        (case callers s ! t of
           Start_locking monitorCtx cancel \<Rightarrow>
             Some (s\<lparr>cancelFunc := Some cancel, isRunning := True,
                     callers := (callers s)[t := Start_subscribing monitorCtx]\<rparr>)
         | _ \<Rightarrow> None)
      else None)"
| "step (StartSubscribe t) s =
     (if t < length (callers s) then
        (case callers s ! t of
           Start_subscribing monitorCtx \<Rightarrow>
             Some (s\<lparr>subscriptions := subscriptions s @ [monitorCtx],
                     callers := (callers s)[t := Start_spawning monitorCtx]\<rparr>)
         | _ \<Rightarrow> None)
      else None)"
| "step (StartGo t) s =
     (if t < length (callers s) then
        (case callers s ! t of
           Start_spawning monitorCtx \<Rightarrow>
             Some (s\<lparr>goroutines := goroutines s @ [(monitorCtx, Selecting)],
                     callers := (callers s)[t := Returned]\<rparr>)
         | _ \<Rightarrow> None)
      else None)"
| "step StopCall s =
     (if mu s = None
      then Some (s\<lparr>mu := Some (length (callers s)), callers := callers s @ [Stop_locked]\<rparr>)
      else None)"
| "step (StopIdle t) s =
     (if at_call s t Stop_locked
      then Some (s\<lparr>isRunning := False, callers := (callers s)[t := Stop_idle]\<rparr>)
      else None)"
| "step (StopCancel t) s =
     (if at_call s t Stop_idle
      then Some (s\<lparr>cancelCalled :=
                     (case cancelFunc s of None \<Rightarrow> cancelCalled s
                      | Some cancel \<Rightarrow> insert cancel (cancelCalled s)),
                   callers := (callers s)[t := Stop_waiting]\<rparr>)
      else None)"
| "step (StopWait t) s =
     (if at_call s t Stop_waiting \<and> wg s = 0
      then Some (s\<lparr>callers := (callers s)[t := Stop_drained]\<rparr>)
      else None)"
| "step (StopReturn t) s =
     (if at_call s t Stop_drained
      then Some (s\<lparr>mu := None, callers := (callers s)[t := Returned]\<rparr>)
      else None)"
| "step (LoopDone g) s =
     (if at_loop s g Selecting \<and> ctxDone s (fst (goroutines s ! g))
      then Some (s\<lparr>goroutines := set_loop s g Exited\<rparr>)
      else None)"
| "step (LoopErr g) s =
     (if at_loop s g Selecting then Some (s\<lparr>goroutines := set_loop s g Exited\<rparr>) else None)"
| "step (LoopClosed g) s =
     (if at_loop s g Selecting then Some (s\<lparr>goroutines := set_loop s g Exited\<rparr>) else None)"
| "step (LoopBlock g) s =
     (if at_loop s g Selecting then Some (s\<lparr>goroutines := set_loop s g Received\<rparr>) else None)"
| "step (LoopAdd g) s =
     (if at_loop s g Received
      then Some (s\<lparr>wg := Suc (wg s), goroutines := set_loop s g Processing\<rparr>)
      else None)"
| "step (LoopProcessed g) s =
     (if at_loop s g Processing \<and> 0 < wg s
      then Some (s\<lparr>wg := wg s - 1, goroutines := set_loop s g Selecting\<rparr>)
      else None)"
| "step (Tick n) s = Some (s\<lparr>now := now s + n\<rparr>)"
| "step (RequestDone n) s = Some (s\<lparr>requestsDone := insert n (requestsDone s)\<rparr>)"

fun run :: "event list \<Rightarrow> system \<Rightarrow> system option" where
  "run [] s = Some s"
| "run (e # es) s = (case step e s of None \<Rightarrow> None | Some s' \<Rightarrow> run es s')"

text \<open>\<^verbatim>\<open>IsRunning\<close> takes the read lock, so it waits (\<open>None\<close>) while a \<^verbatim>\<open>Stop\<close> holds the lock.\<close>

definition IsRunning :: "system \<Rightarrow> bool option" where
  "IsRunning s = (if mu s = None then Some (isRunning s) else None)"

text \<open>
  A whole call that no step of another caller interrupts: \<^verbatim>\<open>Start(ctx)\<close>, and \<^verbatim>\<open>Stop\<close>,
  which cannot finish by itself (\<open>None\<close>) when the lock is taken or a block is in flight.
\<close>

definition Start :: "context \<Rightarrow> system \<Rightarrow> system option" where
  "Start ctx s =
     (if isRunning s then step (StartCall ctx) s
      else run [StartCall ctx, StartSet (length (callers s)),
                StartSubscribe (length (callers s)), StartGo (length (callers s))] s)"

definition Stop :: "system \<Rightarrow> system option" where
  "Stop s =
     run [StopCall, StopIdle (length (callers s)), StopCancel (length (callers s)),
          StopWait (length (callers s)), StopReturn (length (callers s))] s"

section \<open>Reading a state of the lifecycle\<close>

text \<open>
  The calls of \<^verbatim>\<open>Stop\<close> that hold the lock; those among them that have passed the
  assignment of line 187; and those among these that have passed the call of the cancel
  function.
\<close>

fun stop_pc :: "call_pc \<Rightarrow> bool" where
  "stop_pc Stop_locked = True"
| "stop_pc Stop_idle = True"
| "stop_pc Stop_waiting = True"
| "stop_pc Stop_drained = True"
| "stop_pc pc = False"

fun idle_pc :: "call_pc \<Rightarrow> bool" where
  "idle_pc Stop_idle = True"
| "idle_pc Stop_waiting = True"
| "idle_pc Stop_drained = True"
| "idle_pc pc = False"

fun cancelled_pc :: "call_pc \<Rightarrow> bool" where
  "cancelled_pc Stop_waiting = True"
| "cancelled_pc Stop_drained = True"
| "cancelled_pc pc = False"

text \<open>The number of goroutines between \<^verbatim>\<open>wg.Add(1)\<close> and \<^verbatim>\<open>wg.Done()\<close>.\<close>

definition in_flight :: "system \<Rightarrow> nat" where
  "in_flight s = length (filter (\<lambda>x. snd x = Processing) (goroutines s))"

text \<open>
  The goroutines that have not returned, and the goroutines whose context is not done.
\<close>

definition active_loops :: "system \<Rightarrow> nat" where
  "active_loops s = length (filter (\<lambda>x. snd x \<noteq> Exited) (goroutines s))"

definition uncancelled :: "system \<Rightarrow> nat \<Rightarrow> bool" where
  "uncancelled s g = (g < length (goroutines s) \<and> \<not> ctxDone s (fst (goroutines s ! g)))"

text \<open>
  What \<open>isRunning\<close> is after a sequence of events, from the events alone: the assignment
  of \<^verbatim>\<open>Start\<close> sets it, the assignment of \<^verbatim>\<open>Stop\<close> clears it, no other event touches it.
\<close>

fun running_after :: "event list \<Rightarrow> bool \<Rightarrow> bool" where
  "running_after [] b = b"
| "running_after (StartSet t # es) b = running_after es True"
| "running_after (StopIdle t # es) b = running_after es False"
| "running_after (e # es) b = running_after es b"

text \<open>
  The context a call of \<^verbatim>\<open>Start\<close> holds, and the contexts that \<^verbatim>\<open>Start\<close> makes: derived
  from the background context, and numbered below the number of the next context.
\<close>

fun pending_ctx :: "call_pc \<Rightarrow> context option" where
  "pending_ctx (Start_locking c k) = Some c"
| "pending_ctx (Start_subscribing c) = Some c"
| "pending_ctx (Start_spawning c) = Some c"
| "pending_ctx pc = None"

fun from_background :: "context \<Rightarrow> bool" where
  "from_background (WithTimeout Background k) = True"
| "from_background c = False"

definition known :: "system \<Rightarrow> context \<Rightarrow> bool" where
  "known s c = (\<exists>k < contexts s. c = WithTimeout Background k)"

fun is_Start_locking :: "call_pc \<Rightarrow> bool" where
  "is_Start_locking (Start_locking c k) = True"
| "is_Start_locking pc = False"

section \<open>The statements of the specification about the lifecycle\<close>

text \<open>
  The specification has \<^verbatim>\<open>Stop\<close> mark the controller idle after it has invoked the stored
  cancellation handle and waited. Then, whenever the controller is idle, the stored handle
  has been invoked.
\<close>

definition spec_idle_after_cancel :: "system \<Rightarrow> bool" where
  "spec_idle_after_cancel s =
     (\<not> isRunning s \<longrightarrow> (\<forall>k. cancelFunc s = Some k \<longrightarrow> k \<in> cancelCalled s))"

text \<open>
  The specification has \<open>running\<close> true exactly when a cancellation token is held and the
  ingestion task of that token has not exited.
\<close>

definition session_exited :: "system \<Rightarrow> nat \<Rightarrow> bool" where
  "session_exited s k = ((WithTimeout Background k, Exited) \<in> set (goroutines s))"

definition spec_running :: "system \<Rightarrow> bool" where
  "spec_running s = (case cancelFunc s of None \<Rightarrow> False | Some k \<Rightarrow> \<not> session_exited s k)"

definition spec_running_iff :: "system \<Rightarrow> bool" where
  "spec_running_iff s = (isRunning s = spec_running s)"

text \<open>The specification has at most one ingestion loop active at any time.\<close>

definition at_most_one_loop :: "system \<Rightarrow> bool" where
  "at_most_one_loop s = (active_loops s \<le> 1)"

section \<open>Runs without overlapping calls of Start, and runs without caller contexts\<close>

text \<open>
  \<^verbatim>\<open>Start\<close> reads \<open>isRunning\<close> before it takes the lock. \<open>run_serial\<close> is \<open>run\<close> restricted
  to the interleavings in which no call of \<^verbatim>\<open>Start\<close> passes that read while another call
  of \<^verbatim>\<open>Start\<close> stands between its read and its locked assignment. Calls of \<^verbatim>\<open>Stop\<close>, the
  goroutines and the clock interleave freely.
\<close>

fun starts_overlap :: "event \<Rightarrow> system \<Rightarrow> bool" where
  "starts_overlap (StartCall c) s = (\<not> isRunning s \<and> list_ex is_Start_locking (callers s))"
| "starts_overlap e s = False"

fun run_serial :: "event list \<Rightarrow> system \<Rightarrow> system option" where
  "run_serial [] s = Some s"
| "run_serial (e # es) s =
     (if starts_overlap e s then None
      else case step e s of None \<Rightarrow> None | Some s' \<Rightarrow> run_serial es s')"

text \<open>
  \<open>forget\<close> removes from an event what concerns the contexts of the callers: the argument
  of \<^verbatim>\<open>Start\<close> becomes the background context, and the end of a caller's context is
  dropped.
\<close>

fun forget :: "event \<Rightarrow> event list" where
  "forget (StartCall c) = [StartCall Background]"
| "forget (RequestDone n) = []"
| "forget e = [e]"

section \<open>Invariants of the lifecycle\<close>

text \<open>
  Of every reachable state: a call of \<^verbatim>\<open>Stop\<close> in progress holds the lock; once it has
  passed line 187 the monitor is not running; once it has called the cancel function the
  stored cancel function has been called; a running monitor has a stored cancel function;
  the counter of the wait group is the number of goroutines in \<^verbatim>\<open>processBlock\<close>; and when
  the monitor is not running and the lock is free, the stored cancel function has been
  called.
\<close>

definition mu_inv :: "system \<Rightarrow> bool" where
  "mu_inv s = (\<forall>t < length (callers s). stop_pc (callers s ! t) \<longrightarrow> mu s = Some t)"

definition idle_inv :: "system \<Rightarrow> bool" where
  "idle_inv s = (\<forall>t < length (callers s). idle_pc (callers s ! t) \<longrightarrow> \<not> isRunning s)"

definition cancel_inv :: "system \<Rightarrow> bool" where
  "cancel_inv s =
     (\<forall>t < length (callers s). cancelled_pc (callers s ! t) \<longrightarrow>
        (\<forall>k. cancelFunc s = Some k \<longrightarrow> k \<in> cancelCalled s))"

definition token_inv :: "system \<Rightarrow> bool" where
  "token_inv s = (isRunning s \<longrightarrow> cancelFunc s \<noteq> None)"

definition wg_inv :: "system \<Rightarrow> bool" where
  "wg_inv s = (wg s = in_flight s)"

definition stored_inv :: "system \<Rightarrow> bool" where
  "stored_inv s =
     (\<not> isRunning s \<and> mu s = None \<longrightarrow> (\<forall>k. cancelFunc s = Some k \<longrightarrow> k \<in> cancelCalled s))"

definition lock_inv :: "system \<Rightarrow> bool" where
  "lock_inv s =
     (mu_inv s \<and> idle_inv s \<and> cancel_inv s \<and> token_inv s \<and> wg_inv s \<and> stored_inv s)"

text \<open>Every context in use was made by \<^verbatim>\<open>Start\<close> from the background context.\<close>

definition ctx_inv :: "system \<Rightarrow> bool" where
  "ctx_inv s =
     ((\<forall>x \<in> set (goroutines s). known s (fst x)) \<and>
      (\<forall>pc \<in> set (callers s). \<forall>c. pending_ctx pc = Some c \<longrightarrow> known s c) \<and>
      (\<forall>c \<in> set (subscriptions s). known s c))"

text \<open>
  Of the states that \<open>run_serial\<close> reaches: at most one call of \<^verbatim>\<open>Start\<close> stands between
  its read and its assignment, and then the monitor is not running; such a call holds the
  context together with its own cancel function; the cancel function of the context of
  every goroutine, and of every call of \<^verbatim>\<open>Start\<close> past its assignment, has been called or
  is the stored one; and no two goroutines or calls hold the same context.
\<close>

definition one_start_inv :: "system \<Rightarrow> bool" where
  "one_start_inv s =
     ((\<forall>t < length (callers s). \<forall>t' < length (callers s).
         is_Start_locking (callers s ! t) \<and> is_Start_locking (callers s ! t') \<longrightarrow> t = t') \<and>
      (\<forall>t < length (callers s). is_Start_locking (callers s ! t) \<longrightarrow> \<not> isRunning s))"

definition locking_inv :: "system \<Rightarrow> bool" where
  "locking_inv s =
     (\<forall>pc \<in> set (callers s). \<forall>c k. pc = Start_locking c k \<longrightarrow> c = WithTimeout Background k)"

definition session_ok :: "system \<Rightarrow> context \<Rightarrow> bool" where
  "session_ok s c =
     (\<exists>k. c = WithTimeout Background k \<and> (k \<in> cancelCalled s \<or> cancelFunc s = Some k))"

definition sessions_inv :: "system \<Rightarrow> bool" where
  "sessions_inv s =
     ((\<forall>x \<in> set (goroutines s). session_ok s (fst x)) \<and>
      (\<forall>pc \<in> set (callers s). \<forall>c.
         pc = Start_subscribing c \<or> pc = Start_spawning c \<longrightarrow> session_ok s c))"

definition uniq :: "context option list \<Rightarrow> context list \<Rightarrow> nat \<Rightarrow> bool" where
  "uniq P G n =
     (distinct G \<and>
      (\<forall>t < length P. \<forall>t' < length P. P ! t = P ! t' \<and> P ! t \<noteq> None \<longrightarrow> t = t') \<and>
      (\<forall>t < length P. \<forall>c. P ! t = Some c \<longrightarrow> c \<notin> set G) \<and>
      (\<forall>c \<in> set G. \<exists>k < n. c = WithTimeout Background k) \<and>
      (\<forall>t < length P. \<forall>c. P ! t = Some c \<longrightarrow> (\<exists>k < n. c = WithTimeout Background k)))"

definition unique_inv :: "system \<Rightarrow> bool" where
  "unique_inv s = uniq (map pending_ctx (callers s)) (map fst (goroutines s)) (contexts s)"

definition serial_inv :: "system \<Rightarrow> bool" where
  "serial_inv s =
     (lock_inv s \<and> one_start_inv s \<and> locking_inv s \<and> sessions_inv s \<and> unique_inv s)"

section \<open>Properties of the address registry\<close>

lemma IsWatched_AddAddresses:
  "IsWatched (AddAddresses w as) B \<longleftrightarrow> B \<in> set as \<or> IsWatched w B"
  by (induction as arbitrary: w) (auto simp: IsWatched_def)

lemma IsWatched_RemoveAddresses:
  "IsWatched (RemoveAddresses w as) B \<longleftrightarrow> B \<notin> set as \<and> IsWatched w B"
  by (induction as arbitrary: w) (auto simp: IsWatched_def)

lemma IsWatched_New: "\<not> IsWatched NewInMemoryAddressWatcher B"
  by (simp add: IsWatched_def NewInMemoryAddressWatcher_def)

lemma IsWatched_apply_ops_never_added:
  "\<not> IsWatched w B \<Longrightarrow> \<forall>x \<in> set ops. B \<notin> set (adds x) \<Longrightarrow> \<not> IsWatched (apply_ops w ops) B"
proof (induction ops arbitrary: w)
  case Nil
  then show ?case by simp
next
  case (Cons x xs)
  have "\<not> IsWatched (apply_op w x) B"
    using Cons.prems by (cases x) (simp_all add: IsWatched_AddAddresses IsWatched_RemoveAddresses)
  with Cons show ?case by simp
qed

text \<open>
  Claim C9. After \<^verbatim>\<open>AddAddresses({A})\<close> the address \<open>A\<close> is watched, and after a following
  \<^verbatim>\<open>RemoveAddresses({A})\<close> it is not. Membership is exact equality of the strings: in a
  registry to which only \<open>A\<close> was added, \<open>B\<close> is watched exactly when \<open>B = A\<close>, and after
  any sequence of additions and removals on a new registry, a string that no addition
  named is not watched (so a case variant of a watched address is not watched).
\<close>

theorem registry_membership:
  "IsWatched (AddAddresses w [A]) A
   \<and> \<not> IsWatched (RemoveAddresses (AddAddresses w [A]) [A]) A
   \<and> (IsWatched (AddAddresses NewInMemoryAddressWatcher [A]) B \<longleftrightarrow> B = A)
   \<and> ((\<forall>x \<in> set ops. B \<notin> set (adds x)) \<longrightarrow>
        \<not> IsWatched (apply_ops NewInMemoryAddressWatcher ops) B)"
proof -
  have "IsWatched (AddAddresses w [A]) A"
    unfolding IsWatched_AddAddresses by simp
  moreover have "\<not> IsWatched (RemoveAddresses (AddAddresses w [A]) [A]) A"
    unfolding IsWatched_RemoveAddresses by simp
  moreover have "IsWatched (AddAddresses NewInMemoryAddressWatcher [A]) B \<longleftrightarrow> B = A"
    unfolding IsWatched_AddAddresses using IsWatched_New by simp
  moreover have "(\<forall>x \<in> set ops. B \<notin> set (adds x)) \<longrightarrow>
        \<not> IsWatched (apply_ops NewInMemoryAddressWatcher ops) B"
    using IsWatched_apply_ops_never_added [OF IsWatched_New] by blast
  ultimately show ?thesis by blast
qed

theorem registry_membership_witness:
  "list_all (\<lambda>x. ''0xABCDEF'' \<notin> set (adds x))
      [Add [''0xabcdef''], Remove [''0x12''], Add [''0x34'', ''0x56'']]
   \<and> IsWatched (apply_ops NewInMemoryAddressWatcher
         [Add [''0xabcdef''], Remove [''0x12''], Add [''0x34'', ''0x56'']]) ''0xabcdef''
   \<and> \<not> IsWatched (apply_ops NewInMemoryAddressWatcher
         [Add [''0xabcdef''], Remove [''0x12''], Add [''0x34'', ''0x56'']]) ''0xABCDEF''"
proof -
  have h: "\<forall>x \<in> set [Add [''0xabcdef''], Remove [''0x12''], Add [''0x34'', ''0x56'']].
      ''0xABCDEF'' \<notin> set (adds x)"
    by simp
  have w: "IsWatched (apply_ops NewInMemoryAddressWatcher
         [Add [''0xabcdef''], Remove [''0x12''], Add [''0x34'', ''0x56'']]) ''0xabcdef''"
    by (simp add: IsWatched_def NewInMemoryAddressWatcher_def)
  have l: "list_all (\<lambda>x. ''0xABCDEF'' \<notin> set (adds x))
      [Add [''0xabcdef''], Remove [''0x12''], Add [''0x34'', ''0x56'']]"
    by simp
  from h l w registry_membership [of NewInMemoryAddressWatcher "''0xabcdef''" "''0xABCDEF''"
      "[Add [''0xabcdef''], Remove [''0x12''], Add [''0x34'', ''0x56'']]"]
  show ?thesis by blast
qed

section \<open>Properties of block processing\<close>


lemma processTransactions_append:
  "processTransactions d (xs @ ys) w =
     (let (w1, c1) = processTransactions d xs w;
          (w2, c2) = processTransactions d ys w1
      in (w2, c1 @ c2))"
  by (induction xs arbitrary: w) (auto simp: Let_def split: prod.splits sum.splits)

lemma isTransactionRelevant_calls:
  "c \<in> set (snd (snd (isTransactionRelevant d tx w))) \<Longrightarrow> is_IsWatched c"
  by (auto simp: isTransactionRelevant_def Let_def split: prod.splits if_splits)

lemma processTransactions_no_lock_calls':
  "processTransactions d txs w = (w', cs) \<Longrightarrow> c \<in> set cs \<Longrightarrow> \<not> is_Lock c \<and> \<not> is_Unlock c"
proof (induction txs arbitrary: w w' cs)
  case Nil
  then show ?case by simp
next
  case (Cons tx txs)
  obtain r w1 c1 where rel: "isTransactionRelevant d tx w = (r, w1, c1)"
    by (cases "isTransactionRelevant d tx w") auto
  have c1: "\<And>x. x \<in> set c1 \<Longrightarrow> \<not> is_Lock x \<and> \<not> is_Unlock x"
    using isTransactionRelevant_calls [of _ d tx w] rel
    by (metis is_IsWatched.elims(2) is_Lock.simps(3) is_Unlock.simps(3) snd_conv)
  show ?case
    using Cons.prems Cons.IH c1 rel
    by (auto simp: Let_def split: prod.splits sum.splits if_splits)
qed

lemma processTransactions_no_lock_calls:
  "c \<in> set (snd (processTransactions d txs w)) \<Longrightarrow> \<not> is_Lock c \<and> \<not> is_Unlock c"
  using processTransactions_no_lock_calls' [of d txs w] by (metis prod.collapse)

lemma isTransactionRelevant_pure:
  assumes "addressWatcher_IsWatched d = (\<lambda>a w. (IsWatched ws a, w))"
  shows "isTransactionRelevant d tx w =
     (spec_relevant ws tx, w,
      if IsWatched ws (tx_Source tx) then [IsWatched_call (tx_Source tx)]
      else [IsWatched_call (tx_Source tx), IsWatched_call (tx_Destination tx)])"
  using assms by (simp add: isTransactionRelevant_def spec_relevant_def)













text \<open>
  Claim C4. If \<^verbatim>\<open>Lock\<close> returns an error, \<^verbatim>\<open>processBlock\<close> returns nil, and the only
  calls it makes are the opening log line, the \<^verbatim>\<open>Lock\<close> call and the warning: no
  \<^verbatim>\<open>IsWatched\<close>, no \<^verbatim>\<open>Publish\<close> and no \<^verbatim>\<open>Unlock\<close> call.
\<close>

theorem lock_contention_skips_block:
  assumes "dlock_Lock d (lockKey b) w = (Some e, w1)"
  shows "processBlock d b w =
           (None, w1, [Log_call Debug ''Processing block transactions'', Lock_call (lockKey b),
                       Log_call Warn ''Other instance is processing block''])
         \<and> (\<forall>c \<in> set (snd (snd (processBlock d b w))).
               \<not> is_IsWatched c \<and> \<not> is_Publish c \<and> \<not> is_Unlock c)"
  using assms by (simp add: processBlock_def)

text \<open>
  With the mocks that record the held keys, the transaction loop never touches the held
  keys, and a block whose key is free leaves the held keys as it found them: the key
  taken by \<^verbatim>\<open>Lock\<close> has been released when \<^verbatim>\<open>processBlock\<close> returns, whatever the
  serializer and the publisher answer.
\<close>

lemma processTransactions_locking_mock:
  "fst (fst (processTransactions (locking_mock_deps ws pr m) txs (held, n))) = held"
proof (induction txs arbitrary: n)
  case Nil
  then show ?case by simp
next
  case (Cons tx txs)
  have rel: "isTransactionRelevant (locking_mock_deps ws pr m) tx (held, n) =
      (spec_relevant ws tx, (held, n),
       if IsWatched ws (tx_Source tx) then [IsWatched_call (tx_Source tx)]
       else [IsWatched_call (tx_Source tx), IsWatched_call (tx_Destination tx)])"
    by (rule isTransactionRelevant_pure) (simp add: locking_mock_deps_def)
  have pub: "\<And>t msg. publisher_Publish (locking_mock_deps ws pr m) t msg (held, n) = (pr n, (held, Suc n))"
    by (simp add: locking_mock_deps_def)
  show ?case
    using Cons.IH [of n] Cons.IH [of "Suc n"]
    by (auto simp: rel pub split: prod.splits sum.splits)
qed

lemma locking_mock_released:
  assumes "lockKey b \<notin> set held"
  shows "fst (fst (snd (processBlock (locking_mock_deps ws pr m) b (held, n)))) = held"
proof -
  let ?d = "locking_mock_deps ws pr m"
  have l: "dlock_Lock ?d (lockKey b) (held, n) = (None, (lockKey b # held, n))"
    using assms by (simp add: locking_mock_deps_def)
  obtain h2 n2 cs where p: "processTransactions ?d (blk_Transactions b) (lockKey b # held, n) = ((h2, n2), cs)"
    by (metis prod.collapse)
  have h2: "h2 = lockKey b # held"
    using processTransactions_locking_mock [of ws pr m "blk_Transactions b" "lockKey b # held" n] p
    by simp
  have u: "dlock_Unlock ?d (lockKey b) (h2, n2) = ((True, None), (held, n2))"
    using assms by (simp add: locking_mock_deps_def h2)
  show ?thesis
    by (simp add: processBlock_def l p u)
qed

text \<open>
  Claim C7. If \<^verbatim>\<open>Lock\<close> succeeds, \<^verbatim>\<open>processBlock\<close> returns nil, and the world it leaves
  is the world that \<^verbatim>\<open>Unlock\<close>, applied to the key of the \<^verbatim>\<open>Lock\<close> call, makes of the
  world that the transaction loop has left. Its calls are the \<^verbatim>\<open>Lock\<close> call, the calls of
  the transaction loop and then, last, the \<^verbatim>\<open>Unlock\<close> call with the same key: there is one
  \<^verbatim>\<open>Lock\<close> call and one \<^verbatim>\<open>Unlock\<close> call, whatever the serializer and the publisher
  return. On a block without transactions \<^verbatim>\<open>Unlock\<close> is applied to the world that \<^verbatim>\<open>Lock\<close>
  has left, and the calls are the \<^verbatim>\<open>Lock\<close> call and the \<^verbatim>\<open>Unlock\<close> call only.
\<close>

theorem unlock_exactly_once:
  assumes "dlock_Lock d (lockKey b) w = (None, w1)"
  shows "processBlock d b w =
           (None,
            snd (dlock_Unlock d (lockKey b) (fst (processTransactions d (blk_Transactions b) w1))),
            [Log_call Debug ''Processing block transactions'', Lock_call (lockKey b)] @
            snd (processTransactions d (blk_Transactions b) w1) @ [Unlock_call (lockKey b)])
         \<and> filter is_Lock (snd (snd (processBlock d b w))) = [Lock_call (lockKey b)]
         \<and> filter is_Unlock (snd (snd (processBlock d b w))) = [Unlock_call (lockKey b)]
         \<and> (blk_Transactions b = [] \<longrightarrow>
              processBlock d b w =
                (None, snd (dlock_Unlock d (lockKey b) w1),
                 [Log_call Debug ''Processing block transactions'', Lock_call (lockKey b),
                  Unlock_call (lockKey b)]))"
proof -
  have whole: "processBlock d b w =
           (None,
            snd (dlock_Unlock d (lockKey b) (fst (processTransactions d (blk_Transactions b) w1))),
            [Log_call Debug ''Processing block transactions'', Lock_call (lockKey b)] @
            snd (processTransactions d (blk_Transactions b) w1) @ [Unlock_call (lockKey b)])"
    using assms by (simp add: processBlock_def split: prod.splits)
  have "filter is_Unlock (snd (processTransactions d (blk_Transactions b) w1)) = []"
    using processTransactions_no_lock_calls [of _ d "blk_Transactions b" w1]
    by (auto simp: filter_empty_conv)
  then have unlocks: "filter is_Unlock (snd (snd (processBlock d b w))) = [Unlock_call (lockKey b)]"
    by (simp add: whole)
  have "filter is_Lock (snd (processTransactions d (blk_Transactions b) w1)) = []"
    using processTransactions_no_lock_calls [of _ d "blk_Transactions b" w1]
    by (auto simp: filter_empty_conv)
  then have locks: "filter is_Lock (snd (snd (processBlock d b w))) = [Lock_call (lockKey b)]"
    by (simp add: whole)
  have empty: "blk_Transactions b = [] \<longrightarrow>
              processBlock d b w =
                (None, snd (dlock_Unlock d (lockKey b) w1),
                 [Log_call Debug ''Processing block transactions'', Lock_call (lockKey b),
                  Unlock_call (lockKey b)])"
    by (simp add: whole)
  from whole locks unlocks empty show ?thesis by blast
qed







lemmas eval_defs = processBlock_def isTransactionRelevant_def mock_deps_def IsWatched_def
  NewInMemoryAddressWatcher_def lockKey_def event_of_def marshal_json_def encode_json_def
  json_string_def escape_ascii_def
  decimal_bigInt_def TopicTransaction_def mk_tx_def mk_block_def scenario_block_def
  scenario_tx_def payloads_def

theorem lock_contention_skips_block_witness:
  "dlock_Lock (mock_deps (AddAddresses NewInMemoryAddressWatcher [''0x5678''])
       (\<lambda>k. Some (errors_New ''lock already taken'')) (\<lambda>n. None) marshal_json)
     (lockKey scenario_block) 0 = (Some (errors_New ''lock already taken''), 0)
   \<and> processBlock (mock_deps (AddAddresses NewInMemoryAddressWatcher [''0x5678''])
       (\<lambda>k. Some (errors_New ''lock already taken'')) (\<lambda>n. None) marshal_json)
       scenario_block 0 =
     (None, 0, [Log_call Debug ''Processing block transactions'',
                Lock_call ''block_lock_block123'',
                Log_call Warn ''Other instance is processing block''])"
proof -
  have h: "dlock_Lock (mock_deps (AddAddresses NewInMemoryAddressWatcher [''0x5678''])
       (\<lambda>k. Some (errors_New ''lock already taken'')) (\<lambda>n. None) marshal_json)
     (lockKey scenario_block) 0 = (Some (errors_New ''lock already taken''), 0)"
    by (simp add: mock_deps_def)
  have k: "lockKey scenario_block = ''block_lock_block123''"
    by (simp add: lockKey_def scenario_block_def)
  from lock_contention_skips_block [OF h] h k show ?thesis by simp
qed

text \<open>
  Two blocks processed with the mocks that record the held keys. In block
  \<^verbatim>\<open>block7\<close> the serializer fails on the first transaction, \<^verbatim>\<open>Publish\<close> fails on the
  second, the third is not relevant and the fourth is published; the key of another
  block is held throughout. When \<^verbatim>\<open>processBlock\<close> returns, the key of \<^verbatim>\<open>block7\<close> is no
  longer held and the other key still is. Block \<^verbatim>\<open>block8\<close> has no transactions.
\<close>

theorem unlock_exactly_once_witness:
  \<open>dlock_Lock
      (locking_mock_deps (AddAddresses NewInMemoryAddressWatcher [''0x1234''])
         (\<lambda>n. if n = 0 then Some (errors_New ''publish error'') else None)
         (\<lambda>ev. if ev_Hash ev = ''t1'' then Inl (errors_New ''marshal error'') else marshal_json ev))
      (lockKey (mk_block ''block7''
         [mk_tx ''0x1234'' ''0x1'' 1 1 ''t1'', mk_tx ''0x1234'' ''0x2'' 2 2 ''t2'',
          mk_tx ''0x9'' ''0x8'' 4 4 ''t4'', mk_tx ''0x3'' ''0x1234'' 3 3 ''t3'']))
      ([''block_lock_block6''], 0) =
     (None, ([''block_lock_block7'', ''block_lock_block6''], 0))
   \<and> processBlock
      (locking_mock_deps (AddAddresses NewInMemoryAddressWatcher [''0x1234''])
         (\<lambda>n. if n = 0 then Some (errors_New ''publish error'') else None)
         (\<lambda>ev. if ev_Hash ev = ''t1'' then Inl (errors_New ''marshal error'') else marshal_json ev))
      (mk_block ''block7''
         [mk_tx ''0x1234'' ''0x1'' 1 1 ''t1'', mk_tx ''0x1234'' ''0x2'' 2 2 ''t2'',
          mk_tx ''0x9'' ''0x8'' 4 4 ''t4'', mk_tx ''0x3'' ''0x1234'' 3 3 ''t3''])
      ([''block_lock_block6''], 0) =
     (None, ([''block_lock_block6''], 2),
      [Log_call Debug ''Processing block transactions'',
       Lock_call ''block_lock_block7'',
       IsWatched_call ''0x1234'',
       Log_call Error ''Failed to marshal transaction event'',
       IsWatched_call ''0x1234'',
       Publish_call ''transaction''
         ''{"Source":"0x1234","Destination":"0x2","Amount":2,"Fees":2,"Hash":"t2"}'',
       Log_call Error ''Failed to publish transaction event'',
       Log_call Debug ''Relevant tx'',
       IsWatched_call ''0x9'', IsWatched_call ''0x8'',
       IsWatched_call ''0x3'', IsWatched_call ''0x1234'',
       Publish_call ''transaction''
         ''{"Source":"0x3","Destination":"0x1234","Amount":3,"Fees":3,"Hash":"t3"}'',
       Log_call Debug ''Relevant tx'',
       Unlock_call ''block_lock_block7''])
   \<and> filter is_Unlock (snd (snd (processBlock
      (locking_mock_deps (AddAddresses NewInMemoryAddressWatcher [''0x1234''])
         (\<lambda>n. if n = 0 then Some (errors_New ''publish error'') else None)
         (\<lambda>ev. if ev_Hash ev = ''t1'' then Inl (errors_New ''marshal error'') else marshal_json ev))
      (mk_block ''block7''
         [mk_tx ''0x1234'' ''0x1'' 1 1 ''t1'', mk_tx ''0x1234'' ''0x2'' 2 2 ''t2'',
          mk_tx ''0x9'' ''0x8'' 4 4 ''t4'', mk_tx ''0x3'' ''0x1234'' 3 3 ''t3''])
      ([''block_lock_block6''], 0)))) = [Unlock_call ''block_lock_block7'']
   \<and> dlock_Lock
      (locking_mock_deps NewInMemoryAddressWatcher (\<lambda>n. None) marshal_json)
      (lockKey (mk_block ''block8'' [])) ([], 0) = (None, ([''block_lock_block8''], 0))
   \<and> blk_Transactions (mk_block ''block8'' []) = []
   \<and> processBlock
      (locking_mock_deps NewInMemoryAddressWatcher (\<lambda>n. None) marshal_json)
      (mk_block ''block8'' []) ([], 0) =
     (None, ([], 0),
      [Log_call Debug ''Processing block transactions'', Lock_call ''block_lock_block8'',
       Unlock_call ''block_lock_block8''])\<close>
proof -
  let ?ws = "AddAddresses NewInMemoryAddressWatcher [''0x1234'']"
  let ?d = "locking_mock_deps ?ws
      (\<lambda>n. if n = 0 then Some (errors_New ''publish error'') else None)
      (\<lambda>ev. if ev_Hash ev = ''t1'' then Inl (errors_New ''marshal error'') else marshal_json ev)"
  let ?txs = "[mk_tx ''0x1234'' ''0x1'' 1 1 ''t1'', mk_tx ''0x1234'' ''0x2'' 2 2 ''t2'',
          mk_tx ''0x9'' ''0x8'' 4 4 ''t4'', mk_tx ''0x3'' ''0x1234'' 3 3 ''t3'']"
  let ?b = "mk_block ''block7'' ?txs"
  let ?e = "locking_mock_deps NewInMemoryAddressWatcher (\<lambda>n. None) marshal_json"
  let ?b8 = "mk_block ''block8'' []"
  have k: "lockKey ?b = ''block_lock_block7''"
    by (simp add: lockKey_def mk_block_def)
  have h: "dlock_Lock ?d (lockKey ?b) ([''block_lock_block6''], 0) =
      (None, ([''block_lock_block7'', ''block_lock_block6''], 0))"
    by (simp add: k locking_mock_deps_def)
  have txs: "blk_Transactions ?b = ?txs"
    by (simp add: mk_block_def)
  have loop: \<open>processTransactions ?d ?txs ([''block_lock_block7'', ''block_lock_block6''], 0) =
      (([''block_lock_block7'', ''block_lock_block6''], 2),
       [IsWatched_call ''0x1234'',
        Log_call Error ''Failed to marshal transaction event'',
        IsWatched_call ''0x1234'',
        Publish_call ''transaction''
          ''{"Source":"0x1234","Destination":"0x2","Amount":2,"Fees":2,"Hash":"t2"}'',
        Log_call Error ''Failed to publish transaction event'',
        Log_call Debug ''Relevant tx'',
        IsWatched_call ''0x9'', IsWatched_call ''0x8'',
        IsWatched_call ''0x3'', IsWatched_call ''0x1234'',
        Publish_call ''transaction''
          ''{"Source":"0x3","Destination":"0x1234","Amount":3,"Fees":3,"Hash":"t3"}'',
        Log_call Debug ''Relevant tx''])\<close>
    by (simp add: eval_defs locking_mock_deps_def)
  have u: "dlock_Unlock ?d ''block_lock_block7'' ([''block_lock_block7'', ''block_lock_block6''], 2) =
      ((True, None), ([''block_lock_block6''], 2))"
    by (simp add: locking_mock_deps_def)
  have k8: "lockKey ?b8 = ''block_lock_block8''"
    by (simp add: lockKey_def mk_block_def)
  have h8: "dlock_Lock ?e (lockKey ?b8) ([], 0) = (None, ([''block_lock_block8''], 0))"
    by (simp add: k8 locking_mock_deps_def)
  have e8: "blk_Transactions ?b8 = []"
    by (simp add: mk_block_def)
  have u8: "dlock_Unlock ?e ''block_lock_block8'' ([''block_lock_block8''], 0) = ((True, None), ([], 0))"
    by (simp add: locking_mock_deps_def)
  note full = unlock_exactly_once [OF h, unfolded k txs loop fst_conv snd_conv u append.simps]
  note none = unlock_exactly_once [OF h8, unfolded k8 e8 u8 snd_conv]
  from full have r1: \<open>processBlock ?d ?b ([''block_lock_block6''], 0) =
     (None, ([''block_lock_block6''], 2),
      [Log_call Debug ''Processing block transactions'',
       Lock_call ''block_lock_block7'',
       IsWatched_call ''0x1234'',
       Log_call Error ''Failed to marshal transaction event'',
       IsWatched_call ''0x1234'',
       Publish_call ''transaction''
         ''{"Source":"0x1234","Destination":"0x2","Amount":2,"Fees":2,"Hash":"t2"}'',
       Log_call Error ''Failed to publish transaction event'',
       Log_call Debug ''Relevant tx'',
       IsWatched_call ''0x9'', IsWatched_call ''0x8'',
       IsWatched_call ''0x3'', IsWatched_call ''0x1234'',
       Publish_call ''transaction''
         ''{"Source":"0x3","Destination":"0x1234","Amount":3,"Fees":3,"Hash":"t3"}'',
       Log_call Debug ''Relevant tx'',
       Unlock_call ''block_lock_block7''])\<close>
    by (rule conjunct1)
  from full have r2: "filter is_Unlock (snd (snd (processBlock ?d ?b ([''block_lock_block6''], 0)))) =
      [Unlock_call ''block_lock_block7'']"
    by blast
  from none have r3: "processBlock ?e ?b8 ([], 0) =
     (None, ([], 0),
      [Log_call Debug ''Processing block transactions'', Lock_call ''block_lock_block8'',
       Unlock_call ''block_lock_block8''])"
    by blast
  from h [unfolded k] r1 r2 h8 [unfolded k8] e8 r3 show ?thesis
    unfolding k k8 by blast
qed





section \<open>Properties of the lifecycle\<close>

lemma step_cases:
  assumes "step e s = Some s'"
  obtains
    (StartReturn) c where "e = StartCall c" "isRunning s" "s' = s\<lparr>callers := callers s @ [Returned]\<rparr>"
  | (StartNew) c where "e = StartCall c" "\<not> isRunning s"
      "s' = s\<lparr>deadlines := deadlines s @ [now s + monitorTimeout], callers := callers s @
                     [Start_locking (WithTimeout Background (contexts s)) (contexts s)]\<rparr>"
  | (StartSet) t c k where "e = StartSet t" "at_call s t (Start_locking c k)" "mu s = None"
      "s' = s\<lparr>cancelFunc := Some k, isRunning := True,
                     callers := (callers s)[t := Start_subscribing c]\<rparr>"
  | (StartSubscribe) t c where "e = StartSubscribe t" "at_call s t (Start_subscribing c)"
      "s' = s\<lparr>subscriptions := subscriptions s @ [c],
                     callers := (callers s)[t := Start_spawning c]\<rparr>"
  | (StartGo) t c where "e = StartGo t" "at_call s t (Start_spawning c)"
      "s' = s\<lparr>goroutines := goroutines s @ [(c, Selecting)],
                     callers := (callers s)[t := Returned]\<rparr>"
  | (StopCall) "e = StopCall" "mu s = None"
      "s' = s\<lparr>mu := Some (length (callers s)), callers := callers s @ [Stop_locked]\<rparr>"
  | (StopIdle) t where "e = StopIdle t" "at_call s t Stop_locked"
      "s' = s\<lparr>isRunning := False, callers := (callers s)[t := Stop_idle]\<rparr>"
  | (StopCancel) t where "e = StopCancel t" "at_call s t Stop_idle"
      "s' = s\<lparr>cancelCalled :=
                     (case cancelFunc s of None \<Rightarrow> cancelCalled s
                      | Some cancel \<Rightarrow> insert cancel (cancelCalled s)),
                   callers := (callers s)[t := Stop_waiting]\<rparr>"
  | (StopWait) t where "e = StopWait t" "at_call s t Stop_waiting" "wg s = 0"
      "s' = s\<lparr>callers := (callers s)[t := Stop_drained]\<rparr>"
  | (StopReturn) t where "e = StopReturn t" "at_call s t Stop_drained"
      "s' = s\<lparr>mu := None, callers := (callers s)[t := Returned]\<rparr>"
  | (Loop) g pc pc' where "e \<in> {LoopDone g, LoopErr g, LoopClosed g, LoopBlock g, LoopAdd g, LoopProcessed g}"
      "at_loop s g pc"
      "s' = s\<lparr>wg := wg s + (if pc' = Processing then 1 else 0) - (if pc = Processing then 1 else 0),
              goroutines := set_loop s g pc'\<rparr>"
      "pc = Processing \<longrightarrow> 0 < wg s"
      "(pc = Processing) = (e = LoopProcessed g)" "(pc' = Processing) = (e = LoopAdd g)"
  | (Tick) n where "e = Tick n" "s' = s\<lparr>now := now s + n\<rparr>"
  | (RequestDone) n where "e = RequestDone n"
      "s' = s\<lparr>requestsDone := insert n (requestsDone s)\<rparr>"
proof (cases e)
  case (StartCall c)
  then show ?thesis using assms StartReturn StartNew by (cases "isRunning s") auto
next
  case (StartSet t)
  then show ?thesis using assms that(3) [of t]
    by (auto simp: at_call_def split: if_splits call_pc.splits)
next
  case (StartSubscribe t)
  then show ?thesis using assms that(4) [of t]
    by (auto simp: at_call_def split: if_splits call_pc.splits)
next
  case (StartGo t)
  then show ?thesis using assms that(5) [of t]
    by (auto simp: at_call_def split: if_splits call_pc.splits)
next
  case StopCall
  then show ?thesis using assms that(6) by (auto split: if_splits)
next
  case (StopIdle t)
  then show ?thesis using assms that(7) by (auto split: if_splits)
next
  case (StopCancel t)
  then show ?thesis using assms that(8) by (auto split: if_splits)
next
  case (StopWait t)
  then show ?thesis using assms that(9) by (auto split: if_splits)
next
  case (StopReturn t)
  then show ?thesis using assms that(10) by (auto split: if_splits)
next
  case (LoopDone g)
  then show ?thesis using assms that(11) [of g Selecting Exited] by (auto split: if_splits)
next
  case (LoopErr g)
  then show ?thesis using assms that(11) [of g Selecting Exited] by (auto split: if_splits)
next
  case (LoopClosed g)
  then show ?thesis using assms that(11) [of g Selecting Exited] by (auto split: if_splits)
next
  case (LoopBlock g)
  then show ?thesis using assms that(11) [of g Selecting Received] by (auto split: if_splits)
next
  case (LoopAdd g)
  then show ?thesis using assms that(11) [of g Received Processing] by (auto split: if_splits)
next
  case (LoopProcessed g)
  then show ?thesis using assms that(11) [of g Processing Selecting] by (auto split: if_splits)
next
  case (Tick n)
  then show ?thesis using assms that(12) by (auto split: if_splits)
next
  case (RequestDone n)
  then show ?thesis using assms that(13) by (auto split: if_splits)
qed

lemma length_filter_update:
  assumes g: "g < length xs"
  shows "length (filter P (xs[g := y])) + (if P (xs ! g) then 1 else 0) =
         length (filter P xs) + (if P y then 1 else 0)"
proof -
  have 1: "xs[g := y] = take g xs @ y # drop (Suc g) xs"
    using g by (rule upd_conv_take_nth_drop)
  have 2: "xs = take g xs @ xs ! g # drop (Suc g) xs"
    using g by (rule id_take_nth_drop)
  have "length (filter P xs) = length (filter P (take g xs @ xs ! g # drop (Suc g) xs))"
    using 2 by simp
  then show ?thesis unfolding 1 by simp
qed

lemma in_flight_set_loop:
  assumes "at_loop s g pc"
  shows "length (filter (\<lambda>x. snd x = Processing) (set_loop s g pc')) +
           (if pc = Processing then 1 else 0) =
         in_flight s + (if pc' = Processing then 1 else 0)"
  using assms
    length_filter_update [of g "goroutines s" "\<lambda>x. snd x = Processing"
      "(fst (goroutines s ! g), pc')"]
  by (simp add: at_loop_def set_loop_def in_flight_def)

lemma mu_inv_step:
  assumes inv: "mu_inv s" and step: "step e s = Some s'"
  shows "mu_inv s'"
  using step
proof (cases rule: step_cases)
  case (StopReturn t)
  have held: "mu s = Some t"
    using inv StopReturn(2) by (simp add: mu_inv_def at_call_def)
  have "\<not> stop_pc (callers s' ! ta)" if "ta < length (callers s')" for ta
  proof (cases "ta = t")
    case True
    then show ?thesis using StopReturn that by (simp add: at_call_def)
  next
    case False
    then have "callers s' ! ta = callers s ! ta" using StopReturn by simp
    moreover have "\<not> stop_pc (callers s ! ta)"
      using inv held False that StopReturn(3) by (auto simp: mu_inv_def)
    ultimately show ?thesis by simp
  qed
  then show ?thesis by (simp add: mu_inv_def)
next
  case (StopCall)
  have "\<not> stop_pc (callers s ! t)" if "t < length (callers s)" for t
    using inv StopCall(2) that by (auto simp: mu_inv_def)
  then show ?thesis using StopCall by (auto simp: mu_inv_def nth_append)
qed (insert inv, auto simp: mu_inv_def at_call_def nth_append nth_list_update)

lemma no_stop_when_free:
  "mu_inv s \<Longrightarrow> mu s = None \<Longrightarrow> t < length (callers s) \<Longrightarrow> \<not> stop_pc (callers s ! t)"
  by (auto simp: mu_inv_def)

lemma idle_pc_stop: "idle_pc pc \<Longrightarrow> stop_pc pc"
  by (cases pc) simp_all

lemma cancelled_pc_stop: "cancelled_pc pc \<Longrightarrow> stop_pc pc"
  by (cases pc) simp_all

lemma idle_inv_step:
  assumes mu: "mu_inv s" and inv: "idle_inv s" and step: "step e s = Some s'"
  shows "idle_inv s'"
  using step
proof (cases rule: step_cases)
  case (StartSet t c k)
  have "\<not> idle_pc (callers s' ! ta)" if "ta < length (callers s')" for ta
    using no_stop_when_free [OF mu StartSet(3), of ta] that StartSet(2,4) idle_pc_stop
    by (auto simp: nth_list_update at_call_def)
  then show ?thesis by (simp add: idle_inv_def)
qed (insert inv, auto simp: idle_inv_def at_call_def nth_append nth_list_update)

lemma cancel_inv_step:
  assumes mu: "mu_inv s" and inv: "cancel_inv s" and step: "step e s = Some s'"
  shows "cancel_inv s'"
  using step
proof (cases rule: step_cases)
  case (StartSet t c k)
  have "\<not> cancelled_pc (callers s' ! ta)" if "ta < length (callers s')" for ta
    using no_stop_when_free [OF mu StartSet(3), of ta] that StartSet(2,4) cancelled_pc_stop
    by (auto simp: nth_list_update at_call_def)
  then show ?thesis by (simp add: cancel_inv_def)
next
  case (StopCancel t)
  then show ?thesis using inv
    by (auto simp: cancel_inv_def at_call_def nth_list_update split: option.splits)
qed (insert inv, auto simp: cancel_inv_def at_call_def nth_append nth_list_update)

lemma token_inv_step:
  assumes inv: "token_inv s" and step: "step e s = Some s'"
  shows "token_inv s'"
  using step by (cases rule: step_cases) (insert inv, auto simp: token_inv_def)

lemma wg_inv_step:
  assumes inv: "wg_inv s" and step: "step e s = Some s'"
  shows "wg_inv s'"
  using step
proof (cases rule: step_cases)
  case (Loop g pc pc')
  then show ?thesis using inv in_flight_set_loop [OF Loop(2), of pc']
    by (auto simp: wg_inv_def in_flight_def split: if_splits)
qed (insert inv, auto simp: wg_inv_def in_flight_def)

lemma stored_inv_step:
  assumes mu: "mu_inv s" and c: "cancel_inv s" and inv: "stored_inv s"
    and step: "step e s = Some s'"
  shows "stored_inv s'"
  using step
proof (cases rule: step_cases)
  case (StopReturn t)
  then show ?thesis using c by (auto simp: stored_inv_def cancel_inv_def at_call_def)
next
  case (StopIdle t)
  then show ?thesis using mu by (auto simp: stored_inv_def mu_inv_def at_call_def)
next
  case (StopCancel t)
  then show ?thesis using mu by (auto simp: stored_inv_def mu_inv_def at_call_def)
qed (insert inv, auto simp: stored_inv_def)

lemma lock_inv_init: "lock_inv NewTxMonitorService"
  by (simp add: lock_inv_def mu_inv_def idle_inv_def cancel_inv_def token_inv_def wg_inv_def
      stored_inv_def NewTxMonitorService_def in_flight_def)

lemma lock_inv_step: "lock_inv s \<Longrightarrow> step e s = Some s' \<Longrightarrow> lock_inv s'"
  unfolding lock_inv_def
  using mu_inv_step idle_inv_step cancel_inv_step token_inv_step wg_inv_step stored_inv_step
  by blast

lemma run_append: "run (xs @ ys) s = (case run xs s of None \<Rightarrow> None | Some s' \<Rightarrow> run ys s')"
  by (induction xs arbitrary: s) (auto split: option.splits)

lemma lock_inv_run: "lock_inv s \<Longrightarrow> run evs s = Some s' \<Longrightarrow> lock_inv s'"
proof (induction evs arbitrary: s)
  case Nil
  then show ?case by simp
next
  case (Cons e evs)
  then obtain s1 where "step e s = Some s1" "run evs s1 = Some s'"
    by (auto split: option.splits)
  then show ?case using Cons.IH [of s1] lock_inv_step [OF Cons.prems(1)] by blast
qed

lemma run_snoc: "run (xs @ [e]) s = (case run xs s of None \<Rightarrow> None | Some s' \<Rightarrow> step e s')"
  by (simp add: run_append split: option.splits)

lemma reachable_lock_inv: "run evs NewTxMonitorService = Some s \<Longrightarrow> lock_inv s"
  using lock_inv_run [OF lock_inv_init] .

lemma no_in_flight:
  assumes "wg_inv s" and "wg s = 0"
  shows "\<not> at_loop s g Processing"
proof
  assume "at_loop s g Processing"
  then have "goroutines s ! g \<in> set (filter (\<lambda>x. snd x = Processing) (goroutines s))"
    by (simp add: at_loop_def)
  then have "0 < in_flight s"
    unfolding in_flight_def by (metis length_pos_if_in_set)
  with assms show False by (simp add: wg_inv_def)
qed

lemma processing_kept:
  assumes "step e s = Some s'" and "at_loop s g Processing" and "e \<noteq> LoopProcessed g"
  shows "at_loop s' g Processing"
  using assms(1)
proof (cases rule: step_cases)
  case (Loop g' pc pc')
  show ?thesis
  proof (cases "g' = g")
    case True
    then have "pc = Processing" using Loop(2) assms(2) by (simp add: at_loop_def)
    then have "e = LoopProcessed g'" using Loop(5) by simp
    then show ?thesis using True assms(3) by simp
  next
    case False
    then show ?thesis using Loop(3) assms(2) by (simp add: at_loop_def set_loop_def)
  qed
qed (insert assms(2), auto simp: at_loop_def nth_append)

lemma processing_ends:
  "at_loop s g Processing \<Longrightarrow> run evs s = Some s' \<Longrightarrow> \<not> at_loop s' g Processing \<Longrightarrow>
   LoopProcessed g \<in> set evs"
proof (induction evs arbitrary: s)
  case Nil
  then show ?case by simp
next
  case (Cons e evs)
  then obtain s1 where s1: "step e s = Some s1" "run evs s1 = Some s'"
    by (auto split: option.splits)
  show ?case
  proof (cases "e = LoopProcessed g")
    case True
    then show ?thesis by simp
  next
    case False
    then have "at_loop s1 g Processing"
      using processing_kept [OF s1(1) Cons.prems(1)] by simp
    then show ?thesis using Cons.IH [OF _ s1(2) Cons.prems(3)] by simp
  qed
qed

lemma waiting_kept:
  assumes "step e s = Some s'" and "at_call s t Stop_waiting" and "e \<noteq> StopWait t"
  shows "at_call s' t Stop_waiting"
  using assms(1)
  by (cases rule: step_cases) (insert assms(2,3), auto simp: at_call_def nth_append nth_list_update)

lemma wait_passes:
  "at_call s t Stop_waiting \<Longrightarrow> run evs s = Some s' \<Longrightarrow> \<not> at_call s' t Stop_waiting \<Longrightarrow>
   \<exists>pre post s1. evs = pre @ StopWait t # post \<and> run pre s = Some s1 \<and> wg s1 = 0"
proof (induction evs arbitrary: s)
  case Nil
  then show ?case by simp
next
  case (Cons e evs)
  then obtain s1 where s1: "step e s = Some s1" "run evs s1 = Some s'"
    by (auto split: option.splits)
  show ?case
  proof (cases "e = StopWait t")
    case True
    then have "wg s = 0" using s1(1) by (auto split: if_splits)
    then have "e # evs = [] @ StopWait t # evs \<and> run [] s = Some s \<and> wg s = 0"
      using True by simp
    then show ?thesis by blast
  next
    case False
    then have "at_call s1 t Stop_waiting"
      using waiting_kept [OF s1(1) Cons.prems(1)] by simp
    from Cons.IH [OF this s1(2) Cons.prems(3)]
    obtain pre post s2 where "evs = pre @ StopWait t # post" "run pre s1 = Some s2" "wg s2 = 0"
      by blast
    then have "e # evs = (e # pre) @ StopWait t # post \<and> run (e # pre) s = Some s2 \<and> wg s2 = 0"
      using s1(1) by simp
    then show ?thesis by blast
  qed
qed

lemma drain:
  assumes inv: "lock_inv s" and g: "at_loop s g Processing"
    and r: "run (StopCancel t # evs2 @ [StopReturn t]) s = Some s'"
  shows "LoopProcessed g \<in> set evs2"
proof -
  obtain s1 where s1: "step (StopCancel t) s = Some s1" "run (evs2 @ [StopReturn t]) s1 = Some s'"
    using r by (auto split: option.splits)
  obtain s2 where s2: "run evs2 s1 = Some s2" "step (StopReturn t) s2 = Some s'"
    using s1(2) by (auto simp: run_snoc split: option.splits)
  have w: "at_call s1 t Stop_waiting"
    using s1(1) by (auto simp: at_call_def split: if_splits)
  have d: "\<not> at_call s2 t Stop_waiting"
    using s2(2) by (auto simp: at_call_def split: if_splits)
  from wait_passes [OF w s2(1) d]
  obtain pre post s3 where p: "evs2 = pre @ StopWait t # post" "run pre s1 = Some s3" "wg s3 = 0"
    by blast
  have g1: "at_loop s1 g Processing"
    using processing_kept [OF s1(1) g] by simp
  have "lock_inv s1" using lock_inv_step [OF inv s1(1)] .
  then have "lock_inv s3" using lock_inv_run p(2) by blast
  then have "\<not> at_loop s3 g Processing"
    using no_in_flight p(3) by (simp add: lock_inv_def)
  then have "LoopProcessed g \<in> set pre"
    using processing_ends [OF g1 p(2)] by simp
  then show ?thesis using p(1) by simp
qed

lemma Stop_idle_noop:
  assumes inv: "lock_inv s" and idle: "\<not> isRunning s" and free: "mu s = None" and z: "wg s = 0"
  shows "Stop s = Some (s\<lparr>callers := callers s @ [Returned]\<rparr>)"
proof -
  have c: "(case cancelFunc s of None \<Rightarrow> cancelCalled s | Some k \<Rightarrow> insert k (cancelCalled s))
           = cancelCalled s"
    using inv idle free by (auto simp: lock_inv_def stored_inv_def insert_absorb split: option.splits)
  have "Stop s = Some (s\<lparr>mu := Some (length (callers s)), callers := callers s @ [Stop_locked],
      isRunning := False, callers := callers s @ [Stop_idle],
      cancelCalled := cancelCalled s, callers := callers s @ [Stop_waiting],
      callers := callers s @ [Stop_drained], mu := None, callers := callers s @ [Returned]\<rparr>)"
    using free z c by (simp add: Stop_def at_call_def nth_append cong: option.case_cong)
  also have "\<dots> = Some (s\<lparr>callers := callers s @ [Returned]\<rparr>)"
    using idle free by (cases s) simp
  finally show ?thesis .
qed

lemma isRunning_step:
  assumes "step e s = Some s'"
  shows "isRunning s' = running_after [e] (isRunning s)"
  using assms by (cases rule: step_cases) auto

lemma running_after_Cons: "running_after (e # es) b = running_after es (running_after [e] b)"
  by (cases e) simp_all

lemma isRunning_run:
  "run evs s = Some s' \<Longrightarrow> isRunning s' = running_after evs (isRunning s)"
proof (induction evs arbitrary: s)
  case Nil
  then show ?case by simp
next
  case (Cons e evs)
  then obtain s1 where s1: "step e s = Some s1" "run evs s1 = Some s'"
    by (auto split: option.splits)
  have "isRunning s' = running_after evs (isRunning s1)" using Cons.IH [OF s1(2)] .
  also have "\<dots> = running_after evs (running_after [e] (isRunning s))"
    using isRunning_step [OF s1(1)] by simp
  finally show ?case using running_after_Cons [of e evs] by simp
qed

lemma isRunning_changes:
  assumes "step e s = Some s'" and "isRunning s' \<noteq> isRunning s"
  shows "(\<exists>t. e = StartSet t \<and> isRunning s') \<or> (\<exists>t. e = StopIdle t \<and> \<not> isRunning s')"
  using assms(1) by (cases rule: step_cases) (insert assms(2), auto)

lemma known_from_background: "known s c \<Longrightarrow> from_background c"
  by (auto simp: known_def)

lemma known_mono: "known s c \<Longrightarrow> contexts s \<le> contexts s' \<Longrightarrow> known s' c"
  by (auto simp: known_def)

lemma from_background_iff: "from_background c \<longleftrightarrow> (\<exists>k. c = WithTimeout Background k)"
  by (cases c rule: from_background.cases) simp_all

lemma ctxDone_from_background:
  "from_background c \<Longrightarrow> ctxDone s c \<longleftrightarrow>
     (\<exists>k. c = WithTimeout Background k \<and>
          (k \<in> cancelCalled s \<or> (k < length (deadlines s) \<and> deadlines s ! k \<le> now s)))"
  by (cases c rule: from_background.cases) simp_all

lemma in_set_update: "x \<in> set (xs[i := y]) \<Longrightarrow> x = y \<or> x \<in> set xs"
  using set_update_subset_insert [of xs i y] by auto

lemma at_call_mem: "at_call s t pc \<Longrightarrow> pc \<in> set (callers s)"
  unfolding at_call_def using nth_mem by force

lemma ctx_inv_init: "ctx_inv NewTxMonitorService"
  by (simp add: ctx_inv_def NewTxMonitorService_def)

lemma ctx_inv_step:
  assumes inv: "ctx_inv s" and step: "step e s = Some s'"
  shows "ctx_inv s'"
  using step
proof (cases rule: step_cases)
  case (StartNew c)
  have m: "known s' c'" if "known s c'" for c'
    using that StartNew(3) by (auto simp: known_def contexts_def)
  have n: "known s' (WithTimeout Background (contexts s))"
    using StartNew(3) by (simp add: known_def contexts_def)
  show ?thesis using inv StartNew(3) m n by (auto simp: ctx_inv_def)
next
  case (StartSet t c k)
  have same: "known s' = known s" using StartSet(4) by (simp add: known_def contexts_def fun_eq_iff)
  have "known s c"
    using inv at_call_mem [OF StartSet(2)] by (auto simp: ctx_inv_def)
  then show ?thesis using inv StartSet(4) unfolding ctx_inv_def same
    by (auto dest!: in_set_update)
next
  case (StartSubscribe t c)
  have same: "known s' = known s"
    using StartSubscribe(3) by (simp add: known_def contexts_def fun_eq_iff)
  have "known s c"
    using inv at_call_mem [OF StartSubscribe(2)] by (auto simp: ctx_inv_def)
  then show ?thesis using inv StartSubscribe(3) unfolding ctx_inv_def same
    by (auto dest!: in_set_update)
next
  case (StartGo t c)
  have same: "known s' = known s" using StartGo(3) by (simp add: known_def contexts_def fun_eq_iff)
  have "known s c"
    using inv at_call_mem [OF StartGo(2)] by (auto simp: ctx_inv_def)
  then show ?thesis using inv StartGo(3) unfolding ctx_inv_def same
    by (auto dest!: in_set_update)
next
  case (Loop g pc pc')
  have same: "known s' = known s" using Loop(3) by (simp add: known_def contexts_def fun_eq_iff)
  have "known s (fst (goroutines s ! g))"
    using inv Loop(2) by (simp add: ctx_inv_def at_loop_def)
  then show ?thesis using inv Loop(3) unfolding ctx_inv_def same
    by (auto simp: set_loop_def dest!: in_set_update)
next
  case (StartReturn c)
  have same: "known s' = known s" using StartReturn(3) by (simp add: known_def contexts_def fun_eq_iff)
  show ?thesis using inv StartReturn(3) unfolding ctx_inv_def same by auto
next
  case StopCall
  have same: "known s' = known s" using StopCall(3) by (simp add: known_def contexts_def fun_eq_iff)
  show ?thesis using inv StopCall(3) unfolding ctx_inv_def same by auto
next
  case (StopIdle t)
  have same: "known s' = known s" using StopIdle(3) by (simp add: known_def contexts_def fun_eq_iff)
  show ?thesis using inv StopIdle(3) unfolding ctx_inv_def same by (auto dest!: in_set_update)
next
  case (StopCancel t)
  have same: "known s' = known s" using StopCancel(3) by (simp add: known_def contexts_def fun_eq_iff)
  show ?thesis using inv StopCancel(3) unfolding ctx_inv_def same by (auto dest!: in_set_update)
next
  case (StopWait t)
  have same: "known s' = known s" using StopWait(4) by (simp add: known_def contexts_def fun_eq_iff)
  show ?thesis using inv StopWait(4) unfolding ctx_inv_def same by (auto dest!: in_set_update)
next
  case (StopReturn t)
  have same: "known s' = known s" using StopReturn(3) by (simp add: known_def contexts_def fun_eq_iff)
  show ?thesis using inv StopReturn(3) unfolding ctx_inv_def same by (auto dest!: in_set_update)
next
  case (Tick n)
  have same: "known s' = known s" using Tick(2) by (simp add: known_def contexts_def fun_eq_iff)
  show ?thesis using inv Tick(2) unfolding ctx_inv_def same by auto
next
  case (RequestDone n)
  have same: "known s' = known s" using RequestDone(2) by (simp add: known_def contexts_def fun_eq_iff)
  show ?thesis using inv RequestDone(2) unfolding ctx_inv_def same by auto
qed

lemma ctx_inv_run: "ctx_inv s \<Longrightarrow> run evs s = Some s' \<Longrightarrow> ctx_inv s'"
proof (induction evs arbitrary: s)
  case Nil
  then show ?case by simp
next
  case (Cons e evs)
  then obtain s1 where "step e s = Some s1" "run evs s1 = Some s'"
    by (auto split: option.splits)
  then show ?case using Cons.IH [of s1] ctx_inv_step [OF Cons.prems(1)] by blast
qed

lemma ctxDone_requests:
  "from_background c \<Longrightarrow> ctxDone (s\<lparr>requestsDone := R\<rparr>) c = ctxDone s c"
  by (cases c rule: from_background.cases) simp_all

lemma forget_step:
  assumes inv: "ctx_inv s" and step: "step e s = Some s'"
  shows "run (forget e) (s\<lparr>requestsDone := R\<rparr>) = Some (s'\<lparr>requestsDone := R\<rparr>)"
proof (cases e)
  case (LoopDone g)
  have g: "g < length (goroutines s)"
    using step LoopDone by (auto simp: at_loop_def split: if_splits)
  have "known s (fst (goroutines s ! g))"
    using inv nth_mem [OF g] by (simp add: ctx_inv_def)
  then have "from_background (fst (goroutines s ! g))"
    by (rule known_from_background)
  then show ?thesis using step LoopDone
    by (auto simp: at_loop_def set_loop_def ctxDone_requests split: if_splits)
next
  case (StartSet t)
  then show ?thesis using step
    by (auto simp: at_call_def split: if_splits call_pc.splits)
next
  case (StartSubscribe t)
  then show ?thesis using step
    by (auto simp: at_call_def split: if_splits call_pc.splits)
next
  case (StartGo t)
  then show ?thesis using step
    by (auto simp: at_call_def split: if_splits call_pc.splits)
next
  case (StopCancel t)
  then show ?thesis using step
    by (auto simp: at_call_def split: if_splits option.splits)
qed (insert step, auto simp: at_call_def at_loop_def set_loop_def contexts_def split: if_splits)

lemma forget_run:
  "ctx_inv s \<Longrightarrow> run evs s = Some s' \<Longrightarrow>
   run (concat (map forget evs)) (s\<lparr>requestsDone := R\<rparr>) = Some (s'\<lparr>requestsDone := R\<rparr>)"
proof (induction evs arbitrary: s)
  case Nil
  then show ?case by simp
next
  case (Cons e evs)
  then obtain s1 where s1: "step e s = Some s1" "run evs s1 = Some s'"
    by (auto split: option.splits)
  have "ctx_inv s1" using ctx_inv_step [OF Cons.prems(1) s1(1)] .
  then have "run (concat (map forget evs)) (s1\<lparr>requestsDone := R\<rparr>) = Some (s'\<lparr>requestsDone := R\<rparr>)"
    using Cons.IH s1(2) by blast
  then show ?case
    using forget_step [OF Cons.prems(1) s1(1), of R] by (simp add: run_append)
qed

lemma goroutine_ctx_kept:
  assumes "step e s = Some s'" and "g < length (goroutines s)"
  shows "g < length (goroutines s') \<and> fst (goroutines s' ! g) = fst (goroutines s ! g)"
  using assms(1)
proof (cases rule: step_cases)
  case (Loop g' pc pc')
  then show ?thesis using assms(2)
    by (cases "g' = g") (simp_all add: set_loop_def at_loop_def)
qed (insert assms(2), auto simp: nth_append)

lemma only_cancel_or_tick:
  assumes step: "step e s = Some s'" and c: "known s c"
    and before: "\<not> ctxDone s c" and after: "ctxDone s' c"
  shows "(\<exists>t. e = StopCancel t) \<or> (\<exists>n. e = Tick n)"
proof -
  obtain k where k: "k < length (deadlines s)" "c = WithTimeout Background k"
    using c by (auto simp: known_def contexts_def)
  show ?thesis
    using step
    by (cases rule: step_cases) (insert before after k, auto simp: nth_append)
qed

lemma Start_ignores_ctx: "Start c1 s = Start c2 s"
  by (simp add: Start_def)

lemma is_Start_locking_iff: "is_Start_locking pc \<longleftrightarrow> (\<exists>c k. pc = Start_locking c k)"
  by (cases pc) simp_all

lemma one_start_inv_step:
  assumes inv: "one_start_inv s" and step: "step e s = Some s'" and ok: "\<not> starts_overlap e s"
  shows "one_start_inv s'"
  using step
proof (cases rule: step_cases)
  case (StartNew c)
  have none: "\<not> is_Start_locking (callers s ! t)" if "t < length (callers s)" for t
    using ok StartNew(1,2) that by (auto simp: list_ex_iff)
  show ?thesis
    using StartNew none by (auto simp: one_start_inv_def nth_append)
next
  case (StartSet t c k)
  have t: "t < length (callers s)" "is_Start_locking (callers s ! t)"
    using StartSet(2) by (simp_all add: at_call_def)
  have none: "\<not> is_Start_locking (callers s' ! t')" if "t' < length (callers s')" for t'
  proof (cases "t' = t")
    case True
    then show ?thesis using StartSet(4) t by simp
  next
    case False
    then have "\<not> is_Start_locking (callers s ! t')"
      using inv t that StartSet(4) by (auto simp: one_start_inv_def)
    then show ?thesis using False StartSet(4) by simp
  qed
  then show ?thesis by (simp add: one_start_inv_def)
qed (insert inv, auto simp: one_start_inv_def at_call_def nth_append nth_list_update)

lemma session_ok_mono:
  "session_ok s c \<Longrightarrow> cancelCalled s \<subseteq> cancelCalled s' \<Longrightarrow> cancelFunc s' = cancelFunc s \<Longrightarrow>
   session_ok s' c"
  by (auto simp: session_ok_def)

lemma uniqI:
  assumes "distinct G"
    and "\<And>t t'. t < length P \<Longrightarrow> t' < length P \<Longrightarrow> P ! t = P ! t' \<Longrightarrow> P ! t \<noteq> None \<Longrightarrow> t = t'"
    and "\<And>t c. t < length P \<Longrightarrow> P ! t = Some c \<Longrightarrow> c \<notin> set G"
    and "\<And>c. c \<in> set G \<Longrightarrow> \<exists>k < n. c = WithTimeout Background k"
    and "\<And>t c. t < length P \<Longrightarrow> P ! t = Some c \<Longrightarrow> \<exists>k < n. c = WithTimeout Background k"
  shows "uniq P G n"
  unfolding uniq_def using assms by blast

lemma uniqD:
  assumes "uniq P G n"
  shows "distinct G"
    and "\<And>t t'. t < length P \<Longrightarrow> t' < length P \<Longrightarrow> P ! t = P ! t' \<Longrightarrow> P ! t \<noteq> None \<Longrightarrow> t = t'"
    and "\<And>t c. t < length P \<Longrightarrow> P ! t = Some c \<Longrightarrow> c \<notin> set G"
    and "\<And>c. c \<in> set G \<Longrightarrow> \<exists>k < n. c = WithTimeout Background k"
    and "\<And>t c. t < length P \<Longrightarrow> P ! t = Some c \<Longrightarrow> \<exists>k < n. c = WithTimeout Background k"
  using assms unfolding uniq_def by blast+

lemma uniq_call:
  assumes u: "uniq P G n"
  shows "uniq (P @ [None]) G n"
proof (rule uniqI)
  show "distinct G" using uniqD(1) [OF u] .
next
  fix t t'
  assume a: "t < length (P @ [None])" "t' < length (P @ [None])"
    "(P @ [None]) ! t = (P @ [None]) ! t'" "(P @ [None]) ! t \<noteq> None"
  have t: "t < length P" using a(1,4) by (cases "t = length P") (simp_all add: nth_append)
  have t': "t' < length P" using a(2,3,4) by (cases "t' = length P") (simp_all add: nth_append)
  show "t = t'" using uniqD(2) [OF u t t'] a(3,4) t t' by (simp add: nth_append)
next
  fix t c
  assume a: "t < length (P @ [None])" "(P @ [None]) ! t = Some c"
  have t: "t < length P" using a by (cases "t = length P") (simp_all add: nth_append)
  show "c \<notin> set G" using uniqD(3) [OF u t] a(2) t by (simp add: nth_append)
next
  fix c assume "c \<in> set G"
  then show "\<exists>k<n. c = WithTimeout Background k" using uniqD(4) [OF u] by blast
next
  fix t c
  assume a: "t < length (P @ [None])" "(P @ [None]) ! t = Some c"
  have t: "t < length P" using a by (cases "t = length P") (simp_all add: nth_append)
  show "\<exists>k<n. c = WithTimeout Background k" using uniqD(5) [OF u t] a(2) t by (simp add: nth_append)
qed

lemma uniq_new:
  assumes u: "uniq P G n"
  shows "uniq (P @ [Some (WithTimeout Background n)]) G (Suc n)"
proof (rule uniqI)
  let ?P = "P @ [Some (WithTimeout Background n)]"
  have old: "P ! t \<noteq> Some (WithTimeout Background n)" if "t < length P" for t
    using uniqD(5) [OF u that] by auto
  show "distinct G" using uniqD(1) [OF u] .
  show "t = t'" if a: "t < length ?P" "t' < length ?P" "?P ! t = ?P ! t'" "?P ! t \<noteq> None" for t t'
  proof (cases "t < length P")
    case True
    note t = this
    show ?thesis
    proof (cases "t' < length P")
      case True
      then show ?thesis using uniqD(2) [OF u t True] a(3,4) t by (simp add: nth_append)
    next
      case False
      then have "t' = length P" using a(2) by simp
      then show ?thesis using a(3) t old [OF t] by (simp add: nth_append)
    qed
  next
    case False
    then have t: "t = length P" using a(1) by simp
    show ?thesis
    proof (cases "t' < length P")
      case True
      then show ?thesis using a(3) t old [OF True] by (simp add: nth_append)
    next
      case False
      then show ?thesis using a(2) t by simp
    qed
  qed
  show "c \<notin> set G" if a: "t < length ?P" "?P ! t = Some c" for t c
  proof (cases "t < length P")
    case True
    then show ?thesis using uniqD(3) [OF u True] a(2) by (simp add: nth_append)
  next
    case False
    then have "c = WithTimeout Background n" using a by (simp add: nth_append)
    then show ?thesis using uniqD(4) [OF u] by auto
  qed
  show "\<exists>k<Suc n. c = WithTimeout Background k" if "c \<in> set G" for c
    using uniqD(4) [OF u that] less_Suc_eq by auto
  show "\<exists>k<Suc n. c = WithTimeout Background k" if a: "t < length ?P" "?P ! t = Some c" for t c
  proof (cases "t < length P")
    case True
    then have "\<exists>k<n. c = WithTimeout Background k"
      using uniqD(5) [OF u True] a(2) by (simp add: nth_append)
    then show ?thesis using less_Suc_eq by auto
  next
    case False
    then have "c = WithTimeout Background n" using a by (simp add: nth_append)
    then show ?thesis by blast
  qed
qed

lemma uniq_go:
  assumes u: "uniq P G n" and t: "t < length P" "P ! t = Some c"
  shows "uniq (P[t := None]) (G @ [c]) n"
proof (rule uniqI)
  let ?P = "P[t := None]"
  have other: "P ! t' \<noteq> Some c" if "t' < length P" "t' \<noteq> t" for t'
    using uniqD(2) [OF u that(1) t(1)] t(2) that(2) by auto
  have fresh: "c \<notin> set G" using uniqD(3) [OF u t] .
  have nth: "?P ! t' = (if t' = t then None else P ! t')" if "t' < length P" for t'
    using that by (simp add: nth_list_update)
  show "distinct (G @ [c])" using uniqD(1) [OF u] fresh by simp
  show "ta = t'" if a: "ta < length ?P" "t' < length ?P" "?P ! ta = ?P ! t'" "?P ! ta \<noteq> None" for ta t'
  proof -
    have 1: "ta < length P" "t' < length P" using a(1,2) by simp_all
    have 2: "ta \<noteq> t" using a(4) nth [OF 1(1)] by auto
    have 3: "t' \<noteq> t" using a(3,4) nth [OF 1(2)] by auto
    show ?thesis using uniqD(2) [OF u 1] a(3,4) nth [OF 1(1)] nth [OF 1(2)] 2 3 by simp
  qed
  show "ca \<notin> set (G @ [c])" if a: "ta < length ?P" "?P ! ta = Some ca" for ta ca
  proof -
    have 1: "ta < length P" using a(1) by simp
    have 2: "ta \<noteq> t" using a(2) nth [OF 1] by auto
    have 3: "P ! ta = Some ca" using a(2) nth [OF 1] 2 by simp
    show ?thesis using uniqD(3) [OF u 1 3] other [OF 1 2] 3 by auto
  qed
  show "\<exists>k<n. ca = WithTimeout Background k" if "ca \<in> set (G @ [c])" for ca
    using that uniqD(4) [OF u] uniqD(5) [OF u t] by auto
  show "\<exists>k<n. ca = WithTimeout Background k" if a: "ta < length ?P" "?P ! ta = Some ca" for ta ca
  proof -
    have 1: "ta < length P" using a(1) by simp
    have 2: "ta \<noteq> t" using a(2) nth [OF 1] by auto
    have 3: "P ! ta = Some ca" using a(2) nth [OF 1] 2 by simp
    show ?thesis using uniqD(5) [OF u 1 3] .
  qed
qed

lemma pending_update_same:
  assumes "at_call s t pc" and "pending_ctx pc' = pending_ctx pc"
  shows "map pending_ctx ((callers s)[t := pc']) = map pending_ctx (callers s)"
proof -
  have "map pending_ctx ((callers s)[t := pc']) = (map pending_ctx (callers s))[t := pending_ctx pc']"
    by (rule map_update)
  also have "\<dots> = (map pending_ctx (callers s))[t := map pending_ctx (callers s) ! t]"
    using assms by (simp add: at_call_def)
  also have "\<dots> = map pending_ctx (callers s)"
    by (rule list_update_id)
  finally show ?thesis .
qed

lemma fst_set_loop: "map fst (set_loop s g pc) = map fst (goroutines s)"
proof -
  have "map fst (set_loop s g pc) = (map fst (goroutines s))[g := fst (goroutines s ! g)]"
    by (simp add: set_loop_def map_update)
  also have "\<dots> = map fst (goroutines s)"
  proof (cases "g < length (goroutines s)")
    case True
    then have "fst (goroutines s ! g) = map fst (goroutines s) ! g" by simp
    then show ?thesis by (simp only: list_update_id)
  next
    case False
    then have "length (map fst (goroutines s)) \<le> g" by simp
    then show ?thesis by (rule list_update_beyond)
  qed
  finally show ?thesis .
qed

lemma unique_inv_init: "unique_inv NewTxMonitorService"
  by (simp add: unique_inv_def uniq_def NewTxMonitorService_def)

lemma unique_inv_step:
  assumes inv: "unique_inv s" and step: "step e s = Some s'"
  shows "unique_inv s'"
  using step
proof (cases rule: step_cases)
  case (StartReturn c)
  then show ?thesis using uniq_call [OF inv [unfolded unique_inv_def contexts_def]]
    by (simp add: unique_inv_def contexts_def)
next
  case (StartNew c)
  then show ?thesis using uniq_new [OF inv [unfolded unique_inv_def contexts_def]]
    by (simp add: unique_inv_def contexts_def)
next
  case (StartSet t c k)
  then show ?thesis using inv [unfolded unique_inv_def contexts_def] pending_update_same [OF StartSet(2), of "Start_subscribing c"]
    by (simp add: unique_inv_def contexts_def)
next
  case (StartSubscribe t c)
  then show ?thesis using inv [unfolded unique_inv_def contexts_def] pending_update_same [OF StartSubscribe(2), of "Start_spawning c"]
    by (simp add: unique_inv_def contexts_def)
next
  case (StartGo t c)
  have t: "t < length (map pending_ctx (callers s))" "map pending_ctx (callers s) ! t = Some c"
    using StartGo(2) by (simp_all add: at_call_def)
  show ?thesis using uniq_go [OF inv [unfolded unique_inv_def contexts_def] t] StartGo(3)
    by (simp add: unique_inv_def contexts_def map_update)
next
  case StopCall
  then show ?thesis using uniq_call [OF inv [unfolded unique_inv_def contexts_def]]
    by (simp add: unique_inv_def contexts_def)
next
  case (StopIdle t)
  then show ?thesis using inv [unfolded unique_inv_def contexts_def] pending_update_same [OF StopIdle(2), of Stop_idle]
    by (simp add: unique_inv_def contexts_def)
next
  case (StopCancel t)
  then show ?thesis using inv [unfolded unique_inv_def contexts_def] pending_update_same [OF StopCancel(2), of Stop_waiting]
    by (simp add: unique_inv_def contexts_def)
next
  case (StopWait t)
  then show ?thesis using inv [unfolded unique_inv_def contexts_def] pending_update_same [OF StopWait(2), of Stop_drained]
    by (simp add: unique_inv_def contexts_def)
next
  case (StopReturn t)
  then show ?thesis using inv [unfolded unique_inv_def contexts_def] pending_update_same [OF StopReturn(2), of Returned]
    by (simp add: unique_inv_def contexts_def)
next
  case (Loop g pc pc')
  then show ?thesis using inv [unfolded unique_inv_def contexts_def] by (simp add: unique_inv_def contexts_def fst_set_loop)
next
  case (Tick k)
  then show ?thesis using inv [unfolded unique_inv_def contexts_def] by (simp add: unique_inv_def contexts_def)
next
  case (RequestDone n)
  then show ?thesis using inv [unfolded unique_inv_def contexts_def] by (simp add: unique_inv_def contexts_def)
qed

lemma locking_inv_step:
  assumes inv: "locking_inv s" and step: "step e s = Some s'"
  shows "locking_inv s'"
  using step
  by (cases rule: step_cases) (insert inv, auto simp: locking_inv_def dest!: in_set_update)

lemma sessions_inv_step:
  assumes inv: "sessions_inv s" and one: "one_start_inv s" and l: "locking_inv s"
    and st: "stored_inv s" and step: "step e s = Some s'"
  shows "sessions_inv s'"
  using step
proof (cases rule: step_cases)
  case (StartReturn c)
  then show ?thesis using inv by (auto simp: sessions_inv_def session_ok_def)
next
  case (StartNew c)
  then show ?thesis using inv by (auto simp: sessions_inv_def session_ok_def)
next
  case (StartSet t c k)
  have idle: "\<not> isRunning s"
    using one StartSet(2) by (auto simp: one_start_inv_def at_call_def)
  have old: "session_ok s' c'" if ok: "session_ok s c'" for c'
  proof -
    obtain k' where k': "c' = WithTimeout Background k'"
      "k' \<in> cancelCalled s \<or> cancelFunc s = Some k'"
      using ok by (auto simp: session_ok_def)
    then have "k' \<in> cancelCalled s"
      using st idle StartSet(3) by (auto simp: stored_inv_def)
    then show ?thesis using k'(1) StartSet(4) by (simp add: session_ok_def)
  qed
  have c: "c = WithTimeout Background k"
    using l at_call_mem [OF StartSet(2)] by (auto simp: locking_inv_def)
  have new: "session_ok s' c"
    using c StartSet(4) by (simp add: session_ok_def)
  show ?thesis
    unfolding sessions_inv_def
  proof (intro conjI ballI allI impI)
    fix x assume "x \<in> set (goroutines s')"
    then have "x \<in> set (goroutines s)" using StartSet(4) by simp
    then show "session_ok s' (fst x)" using inv old by (auto simp: sessions_inv_def)
  next
    fix pc c' assume a: "pc \<in> set (callers s')" "pc = Start_subscribing c' \<or> pc = Start_spawning c'"
    have "pc = Start_subscribing c \<or> pc \<in> set (callers s)"
      using a(1) StartSet(4) by (auto dest!: in_set_update)
    then show "session_ok s' c'"
    proof
      assume "pc = Start_subscribing c"
      then show ?thesis using a(2) new by auto
    next
      assume "pc \<in> set (callers s)"
      then have "session_ok s c'" using inv a(2) by (auto simp: sessions_inv_def)
      then show ?thesis by (rule old)
    qed
  qed
next
  case (StartSubscribe t c)
  have "session_ok s c"
    using inv at_call_mem [OF StartSubscribe(2)] by (auto simp: sessions_inv_def)
  then show ?thesis using inv StartSubscribe(3)
    by (auto simp: sessions_inv_def session_ok_def dest!: in_set_update)
next
  case (StartGo t c)
  have "session_ok s c"
    using inv at_call_mem [OF StartGo(2)] by (auto simp: sessions_inv_def)
  then show ?thesis using inv StartGo(3)
    by (auto simp: sessions_inv_def session_ok_def dest!: in_set_update)
next
  case StopCall
  then show ?thesis using inv by (auto simp: sessions_inv_def session_ok_def)
next
  case (StopIdle t)
  then show ?thesis using inv
    by (auto simp: sessions_inv_def session_ok_def dest!: in_set_update)
next
  case (StopCancel t)
  have old: "session_ok s' c'" if "session_ok s c'" for c'
    using that StopCancel(3) by (auto simp: session_ok_def split: option.splits)
  show ?thesis
    unfolding sessions_inv_def
  proof (intro conjI ballI allI impI)
    fix x assume "x \<in> set (goroutines s')"
    then have "x \<in> set (goroutines s)" using StopCancel(3) by simp
    then show "session_ok s' (fst x)" using inv old by (auto simp: sessions_inv_def)
  next
    fix pc c' assume a: "pc \<in> set (callers s')" "pc = Start_subscribing c' \<or> pc = Start_spawning c'"
    have "pc = Stop_waiting \<or> pc \<in> set (callers s)"
      using a(1) StopCancel(3) by (auto dest!: in_set_update)
    then have "pc \<in> set (callers s)" using a(2) by auto
    then have "session_ok s c'" using inv a(2) by (auto simp: sessions_inv_def)
    then show "session_ok s' c'" by (rule old)
  qed
next
  case (StopWait t)
  then show ?thesis using inv
    by (auto simp: sessions_inv_def session_ok_def dest!: in_set_update)
next
  case (StopReturn t)
  then show ?thesis using inv
    by (auto simp: sessions_inv_def session_ok_def dest!: in_set_update)
next
  case (Loop g pc pc')
  have same: "session_ok s' c = session_ok s c" for c
    using Loop(3) by (simp add: session_ok_def)
  have img: "fst ` set (set_loop s g pc') = fst ` set (goroutines s)"
    using fst_set_loop [of s g pc'] by (metis set_map)
  show ?thesis
    unfolding sessions_inv_def same
  proof (intro conjI ballI allI impI)
    fix x assume "x \<in> set (goroutines s')"
    then have "fst x \<in> fst ` set (set_loop s g pc')" using Loop(3) by simp
    then obtain y where "y \<in> set (goroutines s)" "fst y = fst x"
      unfolding img by auto
    then show "session_ok s (fst x)" using inv by (auto simp: sessions_inv_def)
  next
    fix pc c' assume a: "pc \<in> set (callers s')" "pc = Start_subscribing c' \<or> pc = Start_spawning c'"
    then have "pc \<in> set (callers s)" using Loop(3) by simp
    then show "session_ok s c'" using inv a(2) by (auto simp: sessions_inv_def)
  qed
next
  case (Tick k)
  then show ?thesis using inv by (auto simp: sessions_inv_def session_ok_def)
next
  case (RequestDone n)
  then show ?thesis using inv by (auto simp: sessions_inv_def session_ok_def)
qed

lemma serial_inv_init: "serial_inv NewTxMonitorService"
  using lock_inv_init unique_inv_init
  by (simp add: serial_inv_def one_start_inv_def locking_inv_def sessions_inv_def
      NewTxMonitorService_def)

lemma serial_inv_step:
  assumes "serial_inv s" and "step e s = Some s'" and "\<not> starts_overlap e s"
  shows "serial_inv s'"
  using assms lock_inv_step one_start_inv_step locking_inv_step sessions_inv_step
    unique_inv_step
  unfolding serial_inv_def lock_inv_def by blast

lemma serial_inv_run: "serial_inv s \<Longrightarrow> run_serial evs s = Some s' \<Longrightarrow> serial_inv s'"
proof (induction evs arbitrary: s)
  case Nil
  then show ?case by simp
next
  case (Cons e evs)
  then obtain s1 where s1: "\<not> starts_overlap e s" "step e s = Some s1" "run_serial evs s1 = Some s'"
    by (auto split: option.splits if_splits)
  show ?case using Cons.IH [OF serial_inv_step [OF Cons.prems(1) s1(2) s1(1)] s1(3)] .
qed

lemma run_serial_run: "run_serial evs s = Some s' \<Longrightarrow> run evs s = Some s'"
  by (induction evs arbitrary: s) (auto split: option.splits if_splits)

lemma at_most_one_uncancelled:
  assumes inv: "serial_inv s" and g: "uncancelled s g" and g': "uncancelled s g'"
  shows "g = g'"
proof -
  have l: "g < length (goroutines s)" "g' < length (goroutines s)"
    using g g' by (simp_all add: uncancelled_def)
  have ok: "session_ok s (fst (goroutines s ! g))" "session_ok s (fst (goroutines s ! g'))"
    using inv l by (simp_all add: serial_inv_def sessions_inv_def)
  obtain k where k: "fst (goroutines s ! g) = WithTimeout Background k"
    "k \<in> cancelCalled s \<or> cancelFunc s = Some k"
    using ok(1) by (auto simp: session_ok_def)
  obtain k' where k': "fst (goroutines s ! g') = WithTimeout Background k'"
    "k' \<in> cancelCalled s \<or> cancelFunc s = Some k'"
    using ok(2) by (auto simp: session_ok_def)
  have "k \<notin> cancelCalled s" "k' \<notin> cancelCalled s"
    using g g' k(1) k'(1) by (simp_all add: uncancelled_def)
  then have "k = k'" using k(2) k'(2) by simp
  then have eq: "map fst (goroutines s) ! g = map fst (goroutines s) ! g'"
    using k(1) k'(1) l by simp
  have d: "distinct (map fst (goroutines s))"
    using inv by (simp add: serial_inv_def unique_inv_def uniq_def)
  have l': "g < length (map fst (goroutines s))" "g' < length (map fst (goroutines s))"
    using l by simp_all
  show ?thesis using nth_eq_iff_index_eq [OF d l'] eq by blast
qed

lemma Start_running_noop:
  "isRunning s \<Longrightarrow> Start ctx s = Some (s\<lparr>callers := callers s @ [Returned]\<rparr>)"
  by (simp add: Start_def)

lemma Start_idle:
  assumes "\<not> isRunning s" and "mu s = None"
  shows "Start ctx s =
         Some (s\<lparr>deadlines := deadlines s @ [now s + monitorTimeout],
                 cancelFunc := Some (contexts s), isRunning := True,
                 subscriptions := subscriptions s @ [WithTimeout Background (contexts s)],
                 goroutines := goroutines s @ [(WithTimeout Background (contexts s), Selecting)],
                 callers := callers s @ [Returned]\<rparr>)"
  using assms by (cases s) (simp add: Start_def nth_append contexts_def)

lemmas sys_defs = NewTxMonitorService_def at_call_def at_loop_def set_loop_def Start_def Stop_def
  contexts_def IsRunning_def

text \<open>
  Claim C1, as stated, fails. After \<^verbatim>\<open>Start\<close>, with a block in flight, a call of \<^verbatim>\<open>Stop\<close>
  that has run line 187 and has not yet invoked the cancel function leaves the controller
  idle with the stored handle not invoked: idle is marked first, not last. And a
  controller that is idle, with the lock free, can have a block in flight (the goroutine
  received it before the first \<^verbatim>\<open>Stop\<close> and counts it after); a second \<^verbatim>\<open>Stop\<close> then has to
  wait and does not return by itself.
\<close>

theorem stop_order_counterexample:
  "map_option spec_idle_after_cancel
     (run [StartCall Background, StartSet 0, StartSubscribe 0, StartGo 0, LoopBlock 0, LoopAdd 0,
           StopCall, StopIdle 1] NewTxMonitorService) = Some False
   \<and> Option.bind
     (run [StartCall Background, StartSet 0, StartSubscribe 0, StartGo 0, LoopBlock 0,
           StopCall, StopIdle 1, StopCancel 1, StopWait 1, StopReturn 1, LoopAdd 0]
        NewTxMonitorService) IsRunning = Some False
   \<and> Option.bind
     (run [StartCall Background, StartSet 0, StartSubscribe 0, StartGo 0, LoopBlock 0,
           StopCall, StopIdle 1, StopCancel 1, StopWait 1, StopReturn 1, LoopAdd 0]
        NewTxMonitorService) Stop = None"
  by (simp add: sys_defs spec_idle_after_cancel_def)

text \<open>
  Claim C1, amended. In every reachable state, a call of \<^verbatim>\<open>Stop\<close> has marked the
  controller idle before it invokes the stored cancellation handle, and has invoked the
  handle (if one is stored) before it waits. Every goroutine that is in \<^verbatim>\<open>processBlock\<close>
  when \<^verbatim>\<open>Stop\<close> invokes the handle has finished that \<^verbatim>\<open>processBlock\<close> before \<^verbatim>\<open>Stop\<close>
  returns. On an idle controller with the lock free and no block in flight, a whole call
  of \<^verbatim>\<open>Stop\<close> returns without waiting and changes nothing.
\<close>

theorem stop_idle_cancel_drain:
  assumes "run evs NewTxMonitorService = Some s"
  shows "(\<forall>t < length (callers s). idle_pc (callers s ! t) \<longrightarrow> \<not> isRunning s)
       \<and> (\<forall>t < length (callers s). cancelled_pc (callers s ! t) \<longrightarrow>
            (\<forall>k. cancelFunc s = Some k \<longrightarrow> k \<in> cancelCalled s))
       \<and> (\<forall>g t evs2 s'. at_loop s g Processing \<and>
              run (StopCancel t # evs2 @ [StopReturn t]) s = Some s' \<longrightarrow>
              LoopProcessed g \<in> set evs2)
       \<and> (\<not> isRunning s \<and> mu s = None \<and> wg s = 0 \<longrightarrow>
            Stop s = Some (s\<lparr>callers := callers s @ [Returned]\<rparr>))"
proof -
  have inv: "lock_inv s" using reachable_lock_inv [OF assms] .
  have 1: "\<forall>t < length (callers s). idle_pc (callers s ! t) \<longrightarrow> \<not> isRunning s"
    using inv by (simp add: lock_inv_def idle_inv_def)
  have 2: "\<forall>t < length (callers s). cancelled_pc (callers s ! t) \<longrightarrow>
            (\<forall>k. cancelFunc s = Some k \<longrightarrow> k \<in> cancelCalled s)"
    using inv by (simp add: lock_inv_def cancel_inv_def)
  have 3: "\<forall>g t evs2 s'. at_loop s g Processing \<and>
              run (StopCancel t # evs2 @ [StopReturn t]) s = Some s' \<longrightarrow>
              LoopProcessed g \<in> set evs2"
    using drain [OF inv] by blast
  have 4: "\<not> isRunning s \<and> mu s = None \<and> wg s = 0 \<longrightarrow>
            Stop s = Some (s\<lparr>callers := callers s @ [Returned]\<rparr>)"
    using Stop_idle_noop [OF inv] by blast
  from 1 2 3 4 show ?thesis by blast
qed

theorem stop_idle_cancel_drain_witness:
  "run [StartCall Background, StartSet 0, StartSubscribe 0, StartGo 0, LoopBlock 0, LoopAdd 0,
        StopCall, StopIdle 1] NewTxMonitorService =
     Some \<lparr>isRunning = False, cancelFunc = Some 0, wg = 1, mu = Some 1, now = 0,
           deadlines = [monitorTimeout], cancelCalled = {}, requestsDone = {},
           subscriptions = [WithTimeout Background 0],
           goroutines = [(WithTimeout Background 0, Processing)],
           callers = [Returned, Stop_idle]\<rparr>
   \<and> run (StopCancel 1 # [LoopProcessed 0, StopWait 1] @ [StopReturn 1])
       \<lparr>isRunning = False, cancelFunc = Some 0, wg = 1, mu = Some 1, now = 0,
        deadlines = [monitorTimeout], cancelCalled = {}, requestsDone = {},
        subscriptions = [WithTimeout Background 0],
        goroutines = [(WithTimeout Background 0, Processing)],
        callers = [Returned, Stop_idle]\<rparr> =
     Some \<lparr>isRunning = False, cancelFunc = Some 0, wg = 0, mu = None, now = 0,
           deadlines = [monitorTimeout], cancelCalled = {0}, requestsDone = {},
           subscriptions = [WithTimeout Background 0],
           goroutines = [(WithTimeout Background 0, Selecting)],
           callers = [Returned, Returned]\<rparr>
   \<and> LoopProcessed 0 \<in> set [LoopProcessed 0, StopWait 1]
   \<and> run [] NewTxMonitorService = Some NewTxMonitorService
   \<and> Stop NewTxMonitorService =
       Some (NewTxMonitorService\<lparr>callers := callers NewTxMonitorService @ [Returned]\<rparr>)"
proof -
  let ?s = "\<lparr>isRunning = False, cancelFunc = Some 0, wg = 1, mu = Some 1, now = 0,
           deadlines = [monitorTimeout], cancelCalled = {}, requestsDone = {},
           subscriptions = [WithTimeout Background 0],
           goroutines = [(WithTimeout Background 0, Processing)],
           callers = [Returned, Stop_idle]\<rparr>"
  have r: "run [StartCall Background, StartSet 0, StartSubscribe 0, StartGo 0, LoopBlock 0,
        LoopAdd 0, StopCall, StopIdle 1] NewTxMonitorService = Some ?s"
    by (simp add: sys_defs)
  have r2: "run (StopCancel 1 # [LoopProcessed 0, StopWait 1] @ [StopReturn 1]) ?s =
     Some \<lparr>isRunning = False, cancelFunc = Some 0, wg = 0, mu = None, now = 0,
           deadlines = [monitorTimeout], cancelCalled = {0}, requestsDone = {},
           subscriptions = [WithTimeout Background 0],
           goroutines = [(WithTimeout Background 0, Selecting)],
           callers = [Returned, Returned]\<rparr>"
    by (simp add: sys_defs)
  have g: "at_loop ?s 0 Processing" by (simp add: at_loop_def)
  have r0: "run [] NewTxMonitorService = Some NewTxMonitorService" by simp
  have i: "\<not> isRunning NewTxMonitorService \<and> mu NewTxMonitorService = None \<and>
           wg NewTxMonitorService = 0"
    by (simp add: NewTxMonitorService_def)
  from stop_idle_cancel_drain [OF r] stop_idle_cancel_drain [OF r0] r r2 g r0 i
  show ?thesis by blast
qed

text \<open>
  Claim C2 does not hold of the code. \<^verbatim>\<open>Start\<close> reads \<open>isRunning\<close> at line 55 without
  the lock that its own assignment, \<^verbatim>\<open>Stop\<close> and \<^verbatim>\<open>IsRunning\<close> take. When two calls of
  \<^verbatim>\<open>Start\<close> on an idle monitor both pass that read before either assigns, each of them
  calls \<^verbatim>\<open>SubscribeToBlocks\<close> and launches an ingestion goroutine: there are two
  subscriptions and two goroutines in the \<^verbatim>\<open>select\<close> loop. The stored cancel function is
  the one of the second call, so a following call of \<^verbatim>\<open>Stop\<close> cancels the context of the
  second goroutine only: the context of the first is not done, the first goroutine cannot
  leave its loop by the context, and it goes on receiving and processing blocks while the
  monitor is not running.
\<close>

theorem overlapping_starts_two_loops:
  "run [StartCall (Request 1), StartCall (Request 2), StartSet 0, StartSubscribe 0, StartGo 0,
        StartSet 1, StartSubscribe 1, StartGo 1] NewTxMonitorService =
     Some \<lparr>isRunning = True, cancelFunc = Some 1, wg = 0, mu = None, now = 0,
           deadlines = [monitorTimeout, monitorTimeout], cancelCalled = {}, requestsDone = {},
           subscriptions = [WithTimeout Background 0, WithTimeout Background 1],
           goroutines = [(WithTimeout Background 0, Selecting),
                         (WithTimeout Background 1, Selecting)],
           callers = [Returned, Returned]\<rparr>
   \<and> map_option at_most_one_loop
       (run [StartCall (Request 1), StartCall (Request 2), StartSet 0, StartSubscribe 0,
             StartGo 0, StartSet 1, StartSubscribe 1, StartGo 1] NewTxMonitorService) =
     Some False
   \<and> Option.bind
       (run [StartCall (Request 1), StartCall (Request 2), StartSet 0, StartSubscribe 0,
             StartGo 0, StartSet 1, StartSubscribe 1, StartGo 1] NewTxMonitorService) Stop =
     Some \<lparr>isRunning = False, cancelFunc = Some 1, wg = 0, mu = None, now = 0,
           deadlines = [monitorTimeout, monitorTimeout], cancelCalled = {1}, requestsDone = {},
           subscriptions = [WithTimeout Background 0, WithTimeout Background 1],
           goroutines = [(WithTimeout Background 0, Selecting),
                         (WithTimeout Background 1, Selecting)],
           callers = [Returned, Returned, Returned]\<rparr>
   \<and> uncancelled
       \<lparr>isRunning = False, cancelFunc = Some 1, wg = 0, mu = None, now = 0,
        deadlines = [monitorTimeout, monitorTimeout], cancelCalled = {1}, requestsDone = {},
        subscriptions = [WithTimeout Background 0, WithTimeout Background 1],
        goroutines = [(WithTimeout Background 0, Selecting),
                      (WithTimeout Background 1, Selecting)],
        callers = [Returned, Returned, Returned]\<rparr> 0
   \<and> \<not> uncancelled
       \<lparr>isRunning = False, cancelFunc = Some 1, wg = 0, mu = None, now = 0,
        deadlines = [monitorTimeout, monitorTimeout], cancelCalled = {1}, requestsDone = {},
        subscriptions = [WithTimeout Background 0, WithTimeout Background 1],
        goroutines = [(WithTimeout Background 0, Selecting),
                      (WithTimeout Background 1, Selecting)],
        callers = [Returned, Returned, Returned]\<rparr> 1
   \<and> step (LoopDone 0)
       \<lparr>isRunning = False, cancelFunc = Some 1, wg = 0, mu = None, now = 0,
        deadlines = [monitorTimeout, monitorTimeout], cancelCalled = {1}, requestsDone = {},
        subscriptions = [WithTimeout Background 0, WithTimeout Background 1],
        goroutines = [(WithTimeout Background 0, Selecting),
                      (WithTimeout Background 1, Selecting)],
        callers = [Returned, Returned, Returned]\<rparr> = None
   \<and> run [LoopBlock 0, LoopAdd 0]
       \<lparr>isRunning = False, cancelFunc = Some 1, wg = 0, mu = None, now = 0,
        deadlines = [monitorTimeout, monitorTimeout], cancelCalled = {1}, requestsDone = {},
        subscriptions = [WithTimeout Background 0, WithTimeout Background 1],
        goroutines = [(WithTimeout Background 0, Selecting),
                      (WithTimeout Background 1, Selecting)],
        callers = [Returned, Returned, Returned]\<rparr> =
     Some \<lparr>isRunning = False, cancelFunc = Some 1, wg = 1, mu = None, now = 0,
           deadlines = [monitorTimeout, monitorTimeout], cancelCalled = {1}, requestsDone = {},
           subscriptions = [WithTimeout Background 0, WithTimeout Background 1],
           goroutines = [(WithTimeout Background 0, Processing),
                         (WithTimeout Background 1, Selecting)],
           callers = [Returned, Returned, Returned]\<rparr>"
  by (simp add: sys_defs at_most_one_loop_def active_loops_def uncancelled_def monitorTimeout_def)

text \<open>
  Calls of \<^verbatim>\<open>Start\<close> and \<^verbatim>\<open>Stop\<close> that do not overlap. After \<^verbatim>\<open>Start\<close>, \<^verbatim>\<open>Stop\<close>, \<^verbatim>\<open>Start\<close>,
  called one after the other, two ingestion goroutines have not returned: \<^verbatim>\<open>Stop\<close> waits for
  the block in flight, not for the goroutine, which returns when it next observes its
  context.
\<close>

theorem start_stop_start_two_goroutines:
  "map_option at_most_one_loop
     (Option.bind (Option.bind (Start Background NewTxMonitorService) Stop) (Start Background)) =
   Some False"
  by (simp add: sys_defs at_most_one_loop_def active_loops_def)

text \<open>
  On a running monitor a whole call of \<^verbatim>\<open>Start\<close> returns with no effect.
  Two calls of \<^verbatim>\<open>Start\<close> one after the other on a monitor that is not running make one
  call of \<^verbatim>\<open>SubscribeToBlocks\<close> and launch one ingestion goroutine. In every run in which
  calls of \<^verbatim>\<open>Start\<close> do not overlap between the read of \<open>isRunning\<close> and the locked
  assignment, at most one ingestion goroutine has a context that is not done.
\<close>

theorem start_idempotent:
  "(isRunning s \<longrightarrow> Start ctx s = Some (s\<lparr>callers := callers s @ [Returned]\<rparr>))
   \<and> (\<not> isRunning s \<and> mu s = None \<longrightarrow>
        (\<exists>s1. Start c1 s = Some s1 \<and>
              Start c2 s1 = Some (s1\<lparr>callers := callers s1 @ [Returned]\<rparr>) \<and>
              subscriptions s1 = subscriptions s @ [WithTimeout Background (contexts s)] \<and>
              goroutines s1 =
                goroutines s @ [(WithTimeout Background (contexts s), Selecting)]))
   \<and> (run_serial evs NewTxMonitorService = Some s' \<longrightarrow>
        (\<forall>g g'. uncancelled s' g \<and> uncancelled s' g' \<longrightarrow> g = g'))"
proof -
  have 1: "isRunning s \<longrightarrow> Start ctx s = Some (s\<lparr>callers := callers s @ [Returned]\<rparr>)"
    using Start_running_noop by blast
  have 2: "\<not> isRunning s \<and> mu s = None \<longrightarrow>
        (\<exists>s1. Start c1 s = Some s1 \<and>
              Start c2 s1 = Some (s1\<lparr>callers := callers s1 @ [Returned]\<rparr>) \<and>
              subscriptions s1 = subscriptions s @ [WithTimeout Background (contexts s)] \<and>
              goroutines s1 =
                goroutines s @ [(WithTimeout Background (contexts s), Selecting)])"
  proof
    assume a: "\<not> isRunning s \<and> mu s = None"
    let ?s1 = "s\<lparr>deadlines := deadlines s @ [now s + monitorTimeout],
                 cancelFunc := Some (contexts s), isRunning := True,
                 subscriptions := subscriptions s @ [WithTimeout Background (contexts s)],
                 goroutines := goroutines s @ [(WithTimeout Background (contexts s), Selecting)],
                 callers := callers s @ [Returned]\<rparr>"
    have s1: "Start c1 s = Some ?s1" using Start_idle a by blast
    have "isRunning ?s1" by simp
    then have "Start c2 ?s1 = Some (?s1\<lparr>callers := callers ?s1 @ [Returned]\<rparr>)"
      by (rule Start_running_noop)
    moreover have "subscriptions ?s1 = subscriptions s @ [WithTimeout Background (contexts s)]"
      by simp
    moreover have "goroutines ?s1 =
        goroutines s @ [(WithTimeout Background (contexts s), Selecting)]"
      by simp
    ultimately show "\<exists>s1. Start c1 s = Some s1 \<and>
              Start c2 s1 = Some (s1\<lparr>callers := callers s1 @ [Returned]\<rparr>) \<and>
              subscriptions s1 = subscriptions s @ [WithTimeout Background (contexts s)] \<and>
              goroutines s1 =
                goroutines s @ [(WithTimeout Background (contexts s), Selecting)]"
      using s1 by blast
  qed
  have 3: "run_serial evs NewTxMonitorService = Some s' \<longrightarrow>
        (\<forall>g g'. uncancelled s' g \<and> uncancelled s' g' \<longrightarrow> g = g')"
    using serial_inv_run [OF serial_inv_init] at_most_one_uncancelled by blast
  from 1 2 3 show ?thesis by blast
qed

theorem start_idempotent_witness:
  "\<not> isRunning NewTxMonitorService \<and> mu NewTxMonitorService = None
   \<and> Start (Request 1) NewTxMonitorService =
       Some \<lparr>isRunning = True, cancelFunc = Some 0, wg = 0, mu = None, now = 0,
             deadlines = [monitorTimeout], cancelCalled = {}, requestsDone = {},
             subscriptions = [WithTimeout Background 0],
             goroutines = [(WithTimeout Background 0, Selecting)], callers = [Returned]\<rparr>
   \<and> Option.bind (Start (Request 1) NewTxMonitorService) (Start (Request 2)) =
       Some \<lparr>isRunning = True, cancelFunc = Some 0, wg = 0, mu = None, now = 0,
             deadlines = [monitorTimeout], cancelCalled = {}, requestsDone = {},
             subscriptions = [WithTimeout Background 0],
             goroutines = [(WithTimeout Background 0, Selecting)],
             callers = [Returned, Returned]\<rparr>
   \<and> run_serial [StartCall Background, StartSet 0, StartSubscribe 0, StartGo 0, StopCall,
         StopIdle 1, StopCancel 1, StopWait 1, StopReturn 1, StartCall Background, StartSet 2,
         StartSubscribe 2, StartGo 2] NewTxMonitorService =
       Some \<lparr>isRunning = True, cancelFunc = Some 1, wg = 0, mu = None, now = 0,
             deadlines = [monitorTimeout, monitorTimeout], cancelCalled = {0},
             requestsDone = {},
             subscriptions = [WithTimeout Background 0, WithTimeout Background 1],
             goroutines = [(WithTimeout Background 0, Selecting),
                           (WithTimeout Background 1, Selecting)],
             callers = [Returned, Returned, Returned]\<rparr>
   \<and> uncancelled
       \<lparr>isRunning = True, cancelFunc = Some 1, wg = 0, mu = None, now = 0,
        deadlines = [monitorTimeout, monitorTimeout], cancelCalled = {0},
        requestsDone = {},
        subscriptions = [WithTimeout Background 0, WithTimeout Background 1],
        goroutines = [(WithTimeout Background 0, Selecting),
                      (WithTimeout Background 1, Selecting)],
        callers = [Returned, Returned, Returned]\<rparr> 1
   \<and> \<not> uncancelled
       \<lparr>isRunning = True, cancelFunc = Some 1, wg = 0, mu = None, now = 0,
        deadlines = [monitorTimeout, monitorTimeout], cancelCalled = {0},
        requestsDone = {},
        subscriptions = [WithTimeout Background 0, WithTimeout Background 1],
        goroutines = [(WithTimeout Background 0, Selecting),
                      (WithTimeout Background 1, Selecting)],
        callers = [Returned, Returned, Returned]\<rparr> 0"
proof -
  have i: "\<not> isRunning NewTxMonitorService \<and> mu NewTxMonitorService = None"
    by (simp add: NewTxMonitorService_def)
  have a: "Start (Request 1) NewTxMonitorService =
       Some \<lparr>isRunning = True, cancelFunc = Some 0, wg = 0, mu = None, now = 0,
             deadlines = [monitorTimeout], cancelCalled = {}, requestsDone = {},
             subscriptions = [WithTimeout Background 0],
             goroutines = [(WithTimeout Background 0, Selecting)], callers = [Returned]\<rparr>"
    by (simp add: sys_defs)
  have b: "Option.bind (Start (Request 1) NewTxMonitorService) (Start (Request 2)) =
       Some \<lparr>isRunning = True, cancelFunc = Some 0, wg = 0, mu = None, now = 0,
             deadlines = [monitorTimeout], cancelCalled = {}, requestsDone = {},
             subscriptions = [WithTimeout Background 0],
             goroutines = [(WithTimeout Background 0, Selecting)],
             callers = [Returned, Returned]\<rparr>"
    by (simp add: sys_defs)
  let ?s = "\<lparr>isRunning = True, cancelFunc = Some 1, wg = 0, mu = None, now = 0,
        deadlines = [monitorTimeout, monitorTimeout], cancelCalled = {0},
        requestsDone = {},
        subscriptions = [WithTimeout Background 0, WithTimeout Background 1],
        goroutines = [(WithTimeout Background 0, Selecting),
                      (WithTimeout Background 1, Selecting)],
        callers = [Returned, Returned, Returned]\<rparr>"
  have c: "run_serial [StartCall Background, StartSet 0, StartSubscribe 0, StartGo 0, StopCall,
         StopIdle 1, StopCancel 1, StopWait 1, StopReturn 1, StartCall Background, StartSet 2,
         StartSubscribe 2, StartGo 2] NewTxMonitorService = Some ?s"
    by (simp add: sys_defs)
  have d: "uncancelled ?s 1" "\<not> uncancelled ?s 0"
    by (simp_all add: uncancelled_def monitorTimeout_def)
  from start_idempotent [of NewTxMonitorService "Request 1" "Request 1" "Request 2"] i a b c d
  show ?thesis by blast
qed

text \<open>
  Claim C8, as stated, fails: after \<^verbatim>\<open>Start\<close>, when the goroutine has returned on a stream
  error, \<open>isRunning\<close> is still true.
\<close>

theorem running_after_exit_counterexample:
  "map_option spec_running_iff
     (run [StartCall Background, StartSet 0, StartSubscribe 0, StartGo 0, LoopErr 0]
        NewTxMonitorService) = Some False"
  by (simp add: sys_defs spec_running_iff_def spec_running_def session_exited_def)

text \<open>
  Claim C8, amended. In every reachable state \<open>isRunning\<close> is true exactly when the latest
  of the assignments of \<^verbatim>\<open>Start\<close> (line 64) and \<^verbatim>\<open>Stop\<close> (line 187) was that of \<^verbatim>\<open>Start\<close>, and
  then a cancel function is stored. Only these two assignments change it; no step of the
  ingestion goroutine does.
\<close>

theorem running_set_by_start_cleared_by_stop:
  assumes "run evs NewTxMonitorService = Some s"
  shows "isRunning s = running_after evs False
       \<and> (isRunning s \<longrightarrow> cancelFunc s \<noteq> None)
       \<and> (\<forall>e s'. step e s = Some s' \<and> isRunning s' \<noteq> isRunning s \<longrightarrow>
            (\<exists>t. e = StartSet t \<and> isRunning s') \<or> (\<exists>t. e = StopIdle t \<and> \<not> isRunning s'))"
proof -
  have 1: "isRunning s = running_after evs False"
    using isRunning_run [OF assms] by (simp add: NewTxMonitorService_def)
  have 2: "isRunning s \<longrightarrow> cancelFunc s \<noteq> None"
    using reachable_lock_inv [OF assms] by (simp add: lock_inv_def token_inv_def)
  have 3: "\<forall>e s'. step e s = Some s' \<and> isRunning s' \<noteq> isRunning s \<longrightarrow>
            (\<exists>t. e = StartSet t \<and> isRunning s') \<or> (\<exists>t. e = StopIdle t \<and> \<not> isRunning s')"
    using isRunning_changes by blast
  from 1 2 3 show ?thesis by blast
qed

theorem running_set_by_start_cleared_by_stop_witness:
  "run [StartCall Background, StartSet 0, StartSubscribe 0, StartGo 0, LoopErr 0]
     NewTxMonitorService =
     Some \<lparr>isRunning = True, cancelFunc = Some 0, wg = 0, mu = None, now = 0,
           deadlines = [monitorTimeout], cancelCalled = {}, requestsDone = {},
           subscriptions = [WithTimeout Background 0],
           goroutines = [(WithTimeout Background 0, Exited)], callers = [Returned]\<rparr>
   \<and> running_after [StartCall Background, StartSet 0, StartSubscribe 0, StartGo 0, LoopErr 0]
       False
   \<and> run [StartCall Background, StartSet 0, StartSubscribe 0, StartGo 0, LoopErr 0, StopCall]
     NewTxMonitorService =
     Some \<lparr>isRunning = True, cancelFunc = Some 0, wg = 0, mu = Some 1, now = 0,
           deadlines = [monitorTimeout], cancelCalled = {}, requestsDone = {},
           subscriptions = [WithTimeout Background 0],
           goroutines = [(WithTimeout Background 0, Exited)],
           callers = [Returned, Stop_locked]\<rparr>
   \<and> step (StopIdle 1)
       \<lparr>isRunning = True, cancelFunc = Some 0, wg = 0, mu = Some 1, now = 0,
        deadlines = [monitorTimeout], cancelCalled = {}, requestsDone = {},
        subscriptions = [WithTimeout Background 0],
        goroutines = [(WithTimeout Background 0, Exited)],
        callers = [Returned, Stop_locked]\<rparr> =
     Some \<lparr>isRunning = False, cancelFunc = Some 0, wg = 0, mu = Some 1, now = 0,
           deadlines = [monitorTimeout], cancelCalled = {}, requestsDone = {},
           subscriptions = [WithTimeout Background 0],
           goroutines = [(WithTimeout Background 0, Exited)],
           callers = [Returned, Stop_idle]\<rparr>"
proof -
  have r: "run [StartCall Background, StartSet 0, StartSubscribe 0, StartGo 0, LoopErr 0]
     NewTxMonitorService =
     Some \<lparr>isRunning = True, cancelFunc = Some 0, wg = 0, mu = None, now = 0,
           deadlines = [monitorTimeout], cancelCalled = {}, requestsDone = {},
           subscriptions = [WithTimeout Background 0],
           goroutines = [(WithTimeout Background 0, Exited)], callers = [Returned]\<rparr>"
    by (simp add: sys_defs)
  let ?s = "\<lparr>isRunning = True, cancelFunc = Some 0, wg = 0, mu = Some 1, now = 0,
        deadlines = [monitorTimeout], cancelCalled = {}, requestsDone = {},
        subscriptions = [WithTimeout Background 0],
        goroutines = [(WithTimeout Background 0, Exited)],
        callers = [Returned, Stop_locked]\<rparr>"
  have r2: "run [StartCall Background, StartSet 0, StartSubscribe 0, StartGo 0, LoopErr 0,
     StopCall] NewTxMonitorService = Some ?s"
    by (simp add: sys_defs)
  have st: "step (StopIdle 1) ?s =
     Some \<lparr>isRunning = False, cancelFunc = Some 0, wg = 0, mu = Some 1, now = 0,
           deadlines = [monitorTimeout], cancelCalled = {}, requestsDone = {},
           subscriptions = [WithTimeout Background 0],
           goroutines = [(WithTimeout Background 0, Exited)],
           callers = [Returned, Stop_idle]\<rparr>"
    by (simp add: sys_defs)
  have ra: "running_after [StartCall Background, StartSet 0, StartSubscribe 0, StartGo 0,
      LoopErr 0] False"
    by simp
  from running_set_by_start_cleared_by_stop [OF r] running_set_by_start_cleared_by_stop [OF r2]
    r r2 st ra
  show ?thesis by blast
qed

text \<open>
  Claim C10. \<^verbatim>\<open>Start\<close> gives the same result for any two context arguments. A run in which
  the context arguments are replaced by the background context and the ends of the callers'
  contexts are dropped reaches the same state (but for the record of which caller contexts
  are done). Every context passed to \<^verbatim>\<open>SubscribeToBlocks\<close> or held by a goroutine is derived
  from the background context, and it becomes done only by the cancel call of \<^verbatim>\<open>Stop\<close> or
  by the passing of time; its deadline is 24 hours after the call of \<^verbatim>\<open>Start\<close>.
\<close>

theorem start_ignores_caller_context:
  "Start c1 s0 = Start c2 s0
   \<and> (run evs NewTxMonitorService = Some s \<longrightarrow>
        run (concat (map forget evs)) NewTxMonitorService = Some (s\<lparr>requestsDone := {}\<rparr>))
   \<and> (run evs NewTxMonitorService = Some s \<longrightarrow>
        (\<forall>x \<in> set (goroutines s). \<exists>k < length (deadlines s).
           fst x = WithTimeout Background k \<and>
           ctxDone s (fst x) = (k \<in> cancelCalled s \<or> deadlines s ! k \<le> now s)) \<and>
        (\<forall>c \<in> set (subscriptions s). \<exists>k. c = WithTimeout Background k))
   \<and> (run evs NewTxMonitorService = Some s \<and> g < length (goroutines s) \<and>
        \<not> ctxDone s (fst (goroutines s ! g)) \<and> step e s = Some s' \<and>
        ctxDone s' (fst (goroutines s' ! g)) \<longrightarrow>
        (\<exists>t. e = StopCancel t) \<or> (\<exists>n. e = Tick n))
   \<and> (\<not> isRunning s0 \<and> mu s0 = None \<longrightarrow>
        (\<exists>s1. Start c1 s0 = Some s1 \<and>
              last (goroutines s1) = (WithTimeout Background (contexts s0), Selecting) \<and>
              deadlines s1 ! contexts s0 = now s0 + monitorTimeout))"
proof -
  have 1: "Start c1 s0 = Start c2 s0" by (rule Start_ignores_ctx)
  have 2: "run evs NewTxMonitorService = Some s \<longrightarrow>
        run (concat (map forget evs)) NewTxMonitorService = Some (s\<lparr>requestsDone := {}\<rparr>)"
  proof
    assume r: "run evs NewTxMonitorService = Some s"
    have "NewTxMonitorService\<lparr>requestsDone := {}\<rparr> = NewTxMonitorService"
      by (simp add: NewTxMonitorService_def)
    then show "run (concat (map forget evs)) NewTxMonitorService = Some (s\<lparr>requestsDone := {}\<rparr>)"
      using forget_run [OF ctx_inv_init r, of "{}"] by simp
  qed
  have 3: "run evs NewTxMonitorService = Some s \<longrightarrow>
        (\<forall>x \<in> set (goroutines s). \<exists>k < length (deadlines s).
           fst x = WithTimeout Background k \<and>
           ctxDone s (fst x) = (k \<in> cancelCalled s \<or> deadlines s ! k \<le> now s)) \<and>
        (\<forall>c \<in> set (subscriptions s). \<exists>k. c = WithTimeout Background k)"
  proof
    assume r: "run evs NewTxMonitorService = Some s"
    have "ctx_inv s" using ctx_inv_run [OF ctx_inv_init r] .
    then show "(\<forall>x \<in> set (goroutines s). \<exists>k < length (deadlines s).
           fst x = WithTimeout Background k \<and>
           ctxDone s (fst x) = (k \<in> cancelCalled s \<or> deadlines s ! k \<le> now s)) \<and>
        (\<forall>c \<in> set (subscriptions s). \<exists>k. c = WithTimeout Background k)"
      by (fastforce simp: ctx_inv_def known_def contexts_def)
  qed
  have 4: "run evs NewTxMonitorService = Some s \<and> g < length (goroutines s) \<and>
        \<not> ctxDone s (fst (goroutines s ! g)) \<and> step e s = Some s' \<and>
        ctxDone s' (fst (goroutines s' ! g)) \<longrightarrow>
        (\<exists>t. e = StopCancel t) \<or> (\<exists>n. e = Tick n)"
  proof
    assume a: "run evs NewTxMonitorService = Some s \<and> g < length (goroutines s) \<and>
        \<not> ctxDone s (fst (goroutines s ! g)) \<and> step e s = Some s' \<and>
        ctxDone s' (fst (goroutines s' ! g))"
    have "ctx_inv s" using ctx_inv_run [OF ctx_inv_init] a by blast
    then have k: "known s (fst (goroutines s ! g))"
      using a nth_mem [of g "goroutines s"] by (simp add: ctx_inv_def)
    have "fst (goroutines s' ! g) = fst (goroutines s ! g)"
      using goroutine_ctx_kept a by blast
    then show "(\<exists>t. e = StopCancel t) \<or> (\<exists>n. e = Tick n)"
      using only_cancel_or_tick [OF _ k] a by auto
  qed
  have 5: "\<not> isRunning s0 \<and> mu s0 = None \<longrightarrow>
        (\<exists>s1. Start c1 s0 = Some s1 \<and>
              last (goroutines s1) = (WithTimeout Background (contexts s0), Selecting) \<and>
              deadlines s1 ! contexts s0 = now s0 + monitorTimeout)"
    using Start_idle [of s0 c1] by (auto simp: contexts_def)
  from 1 2 3 4 5 show ?thesis by blast
qed

theorem start_ignores_caller_context_witness:
  "run [RequestDone 7, StartCall (Request 7), StartSet 0, StartSubscribe 0, StartGo 0,
        RequestDone 8, LoopBlock 0, LoopAdd 0, LoopProcessed 0] NewTxMonitorService =
     Some \<lparr>isRunning = True, cancelFunc = Some 0, wg = 0, mu = None, now = 0,
           deadlines = [monitorTimeout], cancelCalled = {}, requestsDone = {8, 7},
           subscriptions = [WithTimeout Background 0],
           goroutines = [(WithTimeout Background 0, Selecting)], callers = [Returned]\<rparr>
   \<and> run (concat (map forget [RequestDone 7, StartCall (Request 7), StartSet 0,
        StartSubscribe 0, StartGo 0, RequestDone 8, LoopBlock 0, LoopAdd 0, LoopProcessed 0]))
       NewTxMonitorService =
     Some \<lparr>isRunning = True, cancelFunc = Some 0, wg = 0, mu = None, now = 0,
           deadlines = [monitorTimeout], cancelCalled = {}, requestsDone = {},
           subscriptions = [WithTimeout Background 0],
           goroutines = [(WithTimeout Background 0, Selecting)], callers = [Returned]\<rparr>
   \<and> \<not> ctxDone
       \<lparr>isRunning = True, cancelFunc = Some 0, wg = 0, mu = None, now = 0,
        deadlines = [monitorTimeout], cancelCalled = {}, requestsDone = {8, 7},
        subscriptions = [WithTimeout Background 0],
        goroutines = [(WithTimeout Background 0, Selecting)], callers = [Returned]\<rparr>
       (WithTimeout Background 0)
   \<and> step (Tick monitorTimeout)
       \<lparr>isRunning = True, cancelFunc = Some 0, wg = 0, mu = None, now = 0,
        deadlines = [monitorTimeout], cancelCalled = {}, requestsDone = {8, 7},
        subscriptions = [WithTimeout Background 0],
        goroutines = [(WithTimeout Background 0, Selecting)], callers = [Returned]\<rparr> =
     Some \<lparr>isRunning = True, cancelFunc = Some 0, wg = 0, mu = None, now = monitorTimeout,
           deadlines = [monitorTimeout], cancelCalled = {}, requestsDone = {8, 7},
           subscriptions = [WithTimeout Background 0],
           goroutines = [(WithTimeout Background 0, Selecting)], callers = [Returned]\<rparr>
   \<and> ctxDone
       \<lparr>isRunning = True, cancelFunc = Some 0, wg = 0, mu = None, now = monitorTimeout,
        deadlines = [monitorTimeout], cancelCalled = {}, requestsDone = {8, 7},
        subscriptions = [WithTimeout Background 0],
        goroutines = [(WithTimeout Background 0, Selecting)], callers = [Returned]\<rparr>
       (WithTimeout Background 0)
   \<and> Start (Request 7) NewTxMonitorService = Start Background NewTxMonitorService
   \<and> \<not> isRunning NewTxMonitorService \<and> mu NewTxMonitorService = None"
proof -
  let ?evs = "[RequestDone 7, StartCall (Request 7), StartSet 0, StartSubscribe 0, StartGo 0,
        RequestDone 8, LoopBlock 0, LoopAdd 0, LoopProcessed 0]"
  let ?s = "\<lparr>isRunning = True, cancelFunc = Some 0, wg = 0, mu = None, now = 0,
        deadlines = [monitorTimeout], cancelCalled = {}, requestsDone = {8, 7},
        subscriptions = [WithTimeout Background 0],
        goroutines = [(WithTimeout Background 0, Selecting)], callers = [Returned]\<rparr>"
  let ?s' = "\<lparr>isRunning = True, cancelFunc = Some 0, wg = 0, mu = None, now = monitorTimeout,
        deadlines = [monitorTimeout], cancelCalled = {}, requestsDone = {8, 7},
        subscriptions = [WithTimeout Background 0],
        goroutines = [(WithTimeout Background 0, Selecting)], callers = [Returned]\<rparr>"
  have r: "run ?evs NewTxMonitorService = Some ?s"
    by (simp add: sys_defs)
  have f: "run (concat (map forget ?evs)) NewTxMonitorService =
     Some \<lparr>isRunning = True, cancelFunc = Some 0, wg = 0, mu = None, now = 0,
           deadlines = [monitorTimeout], cancelCalled = {}, requestsDone = {},
           subscriptions = [WithTimeout Background 0],
           goroutines = [(WithTimeout Background 0, Selecting)], callers = [Returned]\<rparr>"
    by (simp add: sys_defs)
  have g: "0 < length (goroutines ?s)" by simp
  have n: "\<not> ctxDone ?s (WithTimeout Background 0)"
    by (simp add: monitorTimeout_def)
  have st: "step (Tick monitorTimeout) ?s = Some ?s'" by simp
  have d: "ctxDone ?s' (WithTimeout Background 0)" by simp
  have i: "\<not> isRunning NewTxMonitorService \<and> mu NewTxMonitorService = None"
    by (simp add: NewTxMonitorService_def)
  from start_ignores_caller_context [of "Request 7" NewTxMonitorService Background ?evs ?s 0
      "Tick monitorTimeout" ?s'] r f g n st d i
  show ?thesis by simp
qed

end
